theory Spec2Isabelle
  imports Main
begin

section \<open>The data model of goini.go\<close>

text \<open>
  Go strings are byte sequences, so a string is a \<open>char list\<close> of bytes. The two
  structs of the source are records. The Go maps are partial functions; the pointers the
  \<open>sections\<close> map stores are never shared between two sections (each comes from its own
  call of \<open>newOptions\<close>), so a section's options are held by value.
\<close>

record iniOptions =
  ordered :: bool
  optionNames :: "string list"
  options :: "string \<rightharpoonup> string"

record INI =
  ordered :: bool
  sectionNames :: "string list"
  sections :: "string \<rightharpoonup> iniOptions"

text \<open>
  The only run-time panic the source can raise: the slice expression \<open>s[i+1:]\<close> of the two
  remove functions, when \<open>i + 1\<close> exceeds \<open>len(s)\<close>.
\<close>

datatype panic = SliceBoundsOutOfRange

text \<open>
  A \<open>range\<close> loop over a Go map visits every key once, in an order the runtime chooses.
  The functions that range over a map take that order as an argument \<open>rng\<close>;
  \<open>map_range m rng\<close> says that \<open>rng\<close> is an order the runtime may choose for \<open>m\<close>.
\<close>

definition map_range :: "('k \<rightharpoonup> 'v) \<Rightarrow> 'k list \<Rightarrow> bool" where
  "map_range m rng = (distinct rng \<and> set rng = dom m)"

subsection \<open>iniOptions\<close>

definition newOptions :: "bool \<Rightarrow> iniOptions" where
  "newOptions ord = \<lparr>iniOptions.ordered = ord, optionNames = [], options = Map.empty\<rparr>"

definition exist :: "iniOptions \<Rightarrow> string \<Rightarrow> bool" where
  "exist opts optionName = (options opts optionName \<noteq> None)"

definition add :: "iniOptions \<Rightarrow> string \<Rightarrow> string \<Rightarrow> bool \<times> iniOptions" where
  "add opts optionName optionValue =
     (let opts1 = (if iniOptions.ordered opts \<and> \<not> exist opts optionName
                   then opts\<lparr>optionNames := optionNames opts @ [optionName]\<rparr>
                   else opts)
      in (True, opts1\<lparr>options := (options opts1)(optionName \<mapsto> optionValue)\<rparr>))"

definition get :: "iniOptions \<Rightarrow> string \<Rightarrow> string \<times> bool" where
  "get opts optionName =
     (if \<not> exist opts optionName then ('''', False)
      else (the (options opts optionName), True))"

text \<open>
  The loop \<open>i := 0; for idx, name := range names { if name == target { i = idx } }\<close>:
  \<open>last_index names target idx i\<close> runs it from position \<open>idx\<close> with the current \<open>i\<close>.
\<close>

fun last_index :: "string list \<Rightarrow> string \<Rightarrow> nat \<Rightarrow> nat \<Rightarrow> nat" where
  "last_index [] target idx i = i"
| "last_index (name # names) target idx i =
     last_index names target (Suc idx) (if name = target then idx else i)"

text \<open>\<open>append(s[:i], s[i+1:]...)\<close>, with the bounds check of \<open>s[i+1:]\<close>.\<close>

definition delete_at :: "string list \<Rightarrow> nat \<Rightarrow> panic + string list" where
  "delete_at s i =
     (if length s < i + 1 then Inl SliceBoundsOutOfRange
      else Inr (take i s @ drop (i + 1) s))"

definition remove :: "iniOptions \<Rightarrow> string \<Rightarrow> panic + (bool \<times> iniOptions)" where
  "remove opts optionName =
     (if \<not> exist opts optionName then Inr (False, opts)
      else
        let opts1 = opts\<lparr>options := (options opts)(optionName := None)\<rparr>
        in if iniOptions.ordered opts1 then
             (case delete_at (optionNames opts1)
                     (last_index (optionNames opts1) optionName 0 0) of
                Inl p \<Rightarrow> Inl p
              | Inr names \<Rightarrow> Inr (True, opts1\<lparr>optionNames := names\<rparr>))
           else Inr (True, opts1))"

definition getOptions :: "iniOptions \<Rightarrow> string list \<Rightarrow> string list" where
  "getOptions opts rng =
     (if \<not> iniOptions.ordered opts
      then foldl (\<lambda>optionNames optionName. optionNames @ [optionName]) [] rng
      else optionNames opts)"

subsection \<open>INI\<close>

definition NewINI :: "bool \<Rightarrow> INI" where
  "NewINI ord = \<lparr>INI.ordered = ord, sectionNames = [], sections = Map.empty\<rparr>"

definition HasSection :: "INI \<Rightarrow> string \<Rightarrow> bool" where
  "HasSection ini sectionName = (sections ini sectionName \<noteq> None)"

definition HasOption :: "INI \<Rightarrow> string \<Rightarrow> string \<Rightarrow> bool" where
  "HasOption ini sectionName optionName =
     (if \<not> HasSection ini sectionName then False
      else exist (the (sections ini sectionName)) optionName)"

definition AddSection :: "INI \<Rightarrow> string \<Rightarrow> bool \<times> INI" where
  "AddSection ini sectionName =
     (if \<not> HasSection ini sectionName then
        let opts = newOptions (INI.ordered ini);
            ini1 = ini\<lparr>sections := (sections ini)(sectionName \<mapsto> opts)\<rparr>
        in (True, if INI.ordered ini1
                  then ini1\<lparr>sectionNames := sectionNames ini1 @ [sectionName]\<rparr>
                  else ini1)
      else (False, ini))"

definition AddOption :: "INI \<Rightarrow> string \<Rightarrow> string \<Rightarrow> string \<Rightarrow> bool \<times> INI" where
  "AddOption ini sectionName optionName optionValue =
     (let ini1 = (if \<not> HasSection ini sectionName then snd (AddSection ini sectionName)
                  else ini);
          r = add (the (sections ini1 sectionName)) optionName optionValue
      in (fst r, ini1\<lparr>sections := (sections ini1)(sectionName \<mapsto> snd r)\<rparr>))"

definition GetOption :: "INI \<Rightarrow> string \<Rightarrow> string \<Rightarrow> string \<times> bool" where
  "GetOption ini sectionName optionName =
     (case sections ini sectionName of
        Some opts \<Rightarrow> get opts optionName
      | None \<Rightarrow> ('''', False))"

definition RemoveSection :: "INI \<Rightarrow> string \<Rightarrow> panic + (bool \<times> INI)" where
  "RemoveSection ini sectionName =
     (if \<not> HasSection ini sectionName then Inr (False, ini)
      else
        let ini1 = ini\<lparr>sections := (sections ini)(sectionName := None)\<rparr>
        in if INI.ordered ini1 then
             (case delete_at (sectionNames ini1)
                     (last_index (sectionNames ini1) sectionName 0 0) of
                Inl p \<Rightarrow> Inl p
              | Inr names \<Rightarrow> Inr (True, ini1\<lparr>sectionNames := names\<rparr>))
           else Inr (True, ini1))"

definition RemoveOption :: "INI \<Rightarrow> string \<Rightarrow> string \<Rightarrow> panic + (bool \<times> INI)" where
  "RemoveOption ini sectionName optionName =
     (if \<not> HasSection ini sectionName then Inr (False, ini)
      else
        (case remove (the (sections ini sectionName)) optionName of
           Inl p \<Rightarrow> Inl p
         | Inr (b, opts) \<Rightarrow>
             Inr (b, ini\<lparr>sections := (sections ini)(sectionName \<mapsto> opts)\<rparr>)))"

text \<open>
  \<open>Sections\<close> and \<open>getOptions\<close> return the slice of names itself in ordered mode, not a
  copy; the model returns its contents at the time of the call.
\<close>

definition Sections :: "INI \<Rightarrow> string list \<Rightarrow> string list" where
  "Sections ini rng =
     (if \<not> INI.ordered ini
      then foldl (\<lambda>sectionNames sectionName. sectionNames @ [sectionName]) [] rng
      else sectionNames ini)"

definition Options :: "INI \<Rightarrow> string \<Rightarrow> string list \<Rightarrow> string list" where
  "Options ini sectionName rng =
     (if \<not> HasSection ini sectionName then []
      else getOptions (the (sections ini sectionName)) rng)"

subsection \<open>Sequences of operations\<close>

text \<open>
  The fields of both structs are private to the package, so a client reaches a document
  only through \<open>NewINI\<close> and the four mutating methods. \<open>apply_ops\<close> runs a list of
  such calls, stopping at a panic.
\<close>

datatype op =
    OpAddSection string
  | OpAddOption string string string
  | OpRemoveSection string
  | OpRemoveOption string string

fun apply_op :: "INI \<Rightarrow> op \<Rightarrow> panic + INI" where
  "apply_op ini (OpAddSection s) = Inr (snd (AddSection ini s))"
| "apply_op ini (OpAddOption s k v) = Inr (snd (AddOption ini s k v))"
| "apply_op ini (OpRemoveSection s) = map_sum id snd (RemoveSection ini s)"
| "apply_op ini (OpRemoveOption s k) = map_sum id snd (RemoveOption ini s k)"

fun apply_ops :: "INI \<Rightarrow> op list \<Rightarrow> panic + INI" where
  "apply_ops ini [] = Inr ini"
| "apply_ops ini (x # xs) =
     (case apply_op ini x of Inl p \<Rightarrow> Inl p | Inr ini1 \<Rightarrow> apply_ops ini1 xs)"

text \<open>The consistency of the name list with the map, for one option set and for a document.\<close>

definition options_inv :: "iniOptions \<Rightarrow> bool" where
  "options_inv opts =
     (if iniOptions.ordered opts
      then set (optionNames opts) = dom (options opts) \<and> distinct (optionNames opts)
      else optionNames opts = [])"

definition INI_inv :: "INI \<Rightarrow> bool" where
  "INI_inv ini =
     ((if INI.ordered ini
       then set (sectionNames ini) = dom (sections ini) \<and> distinct (sectionNames ini)
       else sectionNames ini = []) \<and>
      (\<forall>opts \<in> ran (sections ini).
         options_inv opts \<and> iniOptions.ordered opts = INI.ordered ini))"

text \<open>
  First-insertion order as the specification words it: a name that is added while absent
  goes to the end, a name that is added while present keeps its place, and removing a name
  leaves the others in the order they had.
\<close>

definition spec_insert :: "string \<Rightarrow> string list \<Rightarrow> string list" where
  "spec_insert n names = (if n \<in> set names then names else names @ [n])"

definition spec_delete :: "string \<Rightarrow> string list \<Rightarrow> string list" where
  "spec_delete n names = filter (\<lambda>x. x \<noteq> n) names"

fun spec_section_order :: "string list \<Rightarrow> op list \<Rightarrow> string list" where
  "spec_section_order names [] = names"
| "spec_section_order names (OpAddSection s # xs) = spec_section_order (spec_insert s names) xs"
| "spec_section_order names (OpAddOption s k v # xs) =
     spec_section_order (spec_insert s names) xs"
| "spec_section_order names (OpRemoveSection s # xs) =
     spec_section_order (spec_delete s names) xs"
| "spec_section_order names (OpRemoveOption s k # xs) = spec_section_order names xs"

fun spec_option_order :: "string \<Rightarrow> string list \<Rightarrow> op list \<Rightarrow> string list" where
  "spec_option_order sec names [] = names"
| "spec_option_order sec names (OpAddSection s # xs) = spec_option_order sec names xs"
| "spec_option_order sec names (OpAddOption s k v # xs) =
     spec_option_order sec (if s = sec then spec_insert k names else names) xs"
| "spec_option_order sec names (OpRemoveSection s # xs) =
     spec_option_order sec (if s = sec then [] else names) xs"
| "spec_option_order sec names (OpRemoveOption s k # xs) =
     spec_option_order sec (if s = sec then spec_delete k names else names) xs"

section \<open>The codec\<close>

subsection \<open>strings.TrimSpace\<close>

text \<open>
  \<open>strings.TrimSpace\<close> removes the leading and the trailing white space of a string, as
  Unicode defines it: it decodes UTF-8 runes from the front while they satisfy
  \<open>unicode.IsSpace\<close>, then from the back. \<open>space_encodings\<close> lists the UTF-8 encodings of
  the runes with the White_Space property: U+0009 to U+000D, U+0020, U+0085, U+00A0,
  U+1680, U+2000 to U+200A, U+2028, U+2029, U+202F, U+205F and U+3000. A byte that starts
  no valid encoding decodes to U+FFFD, which is no space, so trimming stops there.
\<close>

definition space_encodings :: "string list" where
  "space_encodings =
     [[CHR 0x09], [CHR 0x0A], [CHR 0x0B], [CHR 0x0C], [CHR 0x0D], [CHR 0x20],
      [CHR 0xC2, CHR 0x85], [CHR 0xC2, CHR 0xA0],
      [CHR 0xE1, CHR 0x9A, CHR 0x80],
      [CHR 0xE2, CHR 0x80, CHR 0x80], [CHR 0xE2, CHR 0x80, CHR 0x81],
      [CHR 0xE2, CHR 0x80, CHR 0x82], [CHR 0xE2, CHR 0x80, CHR 0x83],
      [CHR 0xE2, CHR 0x80, CHR 0x84], [CHR 0xE2, CHR 0x80, CHR 0x85],
      [CHR 0xE2, CHR 0x80, CHR 0x86], [CHR 0xE2, CHR 0x80, CHR 0x87],
      [CHR 0xE2, CHR 0x80, CHR 0x88], [CHR 0xE2, CHR 0x80, CHR 0x89],
      [CHR 0xE2, CHR 0x80, CHR 0x8A],
      [CHR 0xE2, CHR 0x80, CHR 0xA8], [CHR 0xE2, CHR 0x80, CHR 0xA9],
      [CHR 0xE2, CHR 0x80, CHR 0xAF],
      [CHR 0xE2, CHR 0x81, CHR 0x9F],
      [CHR 0xE3, CHR 0x80, CHR 0x80]]"

text \<open>
  \<open>strip encs s\<close> removes from the front of \<open>s\<close> every leading occurrence of one of the
  byte sequences \<open>encs\<close>.
\<close>

function strip :: "string list \<Rightarrow> string \<Rightarrow> string" where
  "strip encs s =
     (case find (\<lambda>e. e \<noteq> [] \<and> take (length e) s = e) encs of
        Some e \<Rightarrow> strip encs (drop (length e) s)
      | None \<Rightarrow> s)"
  by pat_completeness auto
termination
proof (relation "measure (\<lambda>(encs, s). length s)")
  show "wf (measure (\<lambda>(encs, s). length s))" by simp
next
  fix encs :: "string list" and s e :: string
  assume "find (\<lambda>e. e \<noteq> [] \<and> take (length e) s = e) encs = Some e"
  then have "e \<noteq> []" "take (length e) s = e" by (auto simp: find_Some_iff)
  then have "s \<noteq> []" by auto
  with \<open>e \<noteq> []\<close> show "((encs, drop (length e) s), (encs, s)) \<in> measure (\<lambda>(encs, s). length s)"
    by simp
qed

definition TrimLeft :: "string \<Rightarrow> string" where
  "TrimLeft s = strip space_encodings s"

definition TrimRight :: "string \<Rightarrow> string" where
  "TrimRight s = rev (strip (map rev space_encodings) (rev s))"

definition TrimSpace :: "string \<Rightarrow> string" where
  "TrimSpace s = TrimRight (TrimLeft s)"

subsection \<open>The two regular expressions\<close>

text \<open>
  The fragment of Go's \<open>regexp\<close> syntax that \<open>sectionRegex\<close> and \<open>assignRegex\<close> use:
  a literal byte, \<open>.\<close> (any byte but a newline, as no flag is set), a negated class of one
  byte, their greedy repetitions \<open>*\<close> and \<open>+\<close>, a capturing group, concatenation, and the
  anchors \<open>^\<close> and \<open>$\<close> (begin and end of the text, as no flag is set).
  Go matches rune by rune and the model byte by byte. The bytes the two patterns name are
  ASCII, which never occur inside the encoding of another rune, so both find the same match
  and the same submatches.
\<close>

datatype cclass = Lit char | AnyChar | NotLit char

datatype regex =
    Chr cclass
  | Star cclass
  | Plus cclass
  | Group regex
  | Seq regex regex
  | Bol
  | Eol

fun class_ok :: "cclass \<Rightarrow> char \<Rightarrow> bool" where
  "class_ok (Lit c) x = (x = c)"
| "class_ok AnyChar x = (x \<noteq> CHR 0x0A)"
| "class_ok (NotLit c) x = (x \<noteq> c)"

text \<open>
  The remainders a greedy repetition of a class can leave, the one after the longest run
  first: the order in which Go's leftmost-first matching tries them.
\<close>

fun greedy :: "cclass \<Rightarrow> string \<Rightarrow> string list" where
  "greedy c [] = [[]]"
| "greedy c (x # xs) = (if class_ok c x then greedy c xs @ [x # xs] else [x # xs])"

text \<open>
  \<open>rmatch n re (s, gs)\<close> matches \<open>re\<close> at the front of \<open>s\<close>, the unread part of a text
  of \<open>n\<close> bytes, with the submatches \<open>gs\<close> captured so far. It returns every way to match,
  each as the text left over and the submatches, in the order of preference.
\<close>

fun rmatch :: "nat \<Rightarrow> regex \<Rightarrow> string \<times> string list \<Rightarrow> (string \<times> string list) list" where
  "rmatch n (Chr c) (s, gs) =
     (case s of [] \<Rightarrow> [] | x # xs \<Rightarrow> if class_ok c x then [(xs, gs)] else [])"
| "rmatch n (Star c) (s, gs) = map (\<lambda>r. (r, gs)) (greedy c s)"
| "rmatch n (Plus c) (s, gs) =
     (case s of [] \<Rightarrow> []
      | x # xs \<Rightarrow> if class_ok c x then map (\<lambda>r. (r, gs)) (greedy c xs) else [])"
| "rmatch n (Group re) (s, gs) =
     map (\<lambda>(s', gs'). (s', gs' @ [take (length s - length s') s])) (rmatch n re (s, gs))"
| "rmatch n (Seq a b) st = concat (map (rmatch n b) (rmatch n a st))"
| "rmatch n Bol (s, gs) = (if length s = n then [(s, gs)] else [])"
| "rmatch n Eol (s, gs) = (if s = [] then [(s, gs)] else [])"

text \<open>
  \<open>FindStringSubmatch\<close>: the leftmost match, and at that offset the preferred one; the
  result holds the text of the match, then the text of each group.
\<close>

fun search :: "nat \<Rightarrow> regex \<Rightarrow> string \<Rightarrow> string list option" where
  "search n re s =
     (case rmatch n re (s, []) of
        (s', gs) # _ \<Rightarrow> Some (take (length s - length s') s # gs)
      | [] \<Rightarrow> (case s of [] \<Rightarrow> None | _ # t \<Rightarrow> search n re t))"

definition FindStringSubmatch :: "regex \<Rightarrow> string \<Rightarrow> string list option" where
  "FindStringSubmatch re s = search (length s) re s"

text \<open>\<^verbatim>\<open>sectionRegex = regexp.MustCompile(`^\[(.*)\]$`)\<close>\<close>

definition sectionRegex :: regex where
  "sectionRegex =
     Seq Bol (Seq (Chr (Lit CHR ''['')) (Seq (Group (Star AnyChar)) (Seq (Chr (Lit CHR '']'')) Eol)))"

text \<open>\<^verbatim>\<open>assignRegex = regexp.MustCompile(`^([^=]+)=(.*)$`)\<close>\<close>

definition assignRegex :: regex where
  "assignRegex =
     Seq Bol (Seq (Group (Plus (NotLit CHR ''=''))) (Seq (Chr (Lit CHR ''=''))
       (Seq (Group (Star AnyChar)) Eol)))"

subsection \<open>Errors, readers and writers\<close>

text \<open>
  The values of Go's \<open>error\<close> interface that occur: \<open>ErrSyntax\<close> of the source,
  \<open>io.EOF\<close>, and any other error of a reader or a writer.
\<close>

datatype error = ErrSyntax nat string | EOF | ErrIO string

text \<open>
  \<open>parse\<close> uses its reader only through \<open>ReadString('\n')\<close>, so a reader is the list of
  the results of its successive calls: the bytes read and the error, if any.
  \<open>string_reader text\<close> is a \<open>bufio.Reader\<close> over the in-memory text: every call returns
  the bytes up to and including the next newline, and the call that finds no newline returns
  the rest of the text with \<open>io.EOF\<close>. \<open>split_reads cur text\<close> has read \<open>cur\<close> of the
  current line already.
\<close>

type_synonym reader = "(string \<times> error option) list"

fun split_reads :: "string \<Rightarrow> string \<Rightarrow> reader" where
  "split_reads cur [] = [(cur, Some EOF)]"
| "split_reads cur (c # cs) =
     (if c = CHR 0x0A then (cur @ [c], None) # split_reads [] cs
      else split_reads (cur @ [c]) cs)"

definition string_reader :: "string \<Rightarrow> reader" where
  "string_reader text = split_reads [] text"

text \<open>
  A writer keeps the bytes it has accepted and counts the calls of its \<open>Write\<close> method;
  a broken writer accepts nothing and returns an error from every call.
  \<open>fmt.Fprintln\<close> formats its operands with a space between each two and a newline
  at the end, and hands the line to the writer in one call.
\<close>

record writer =
  written :: string
  broken :: bool
  calls :: nat

fun Sprintln :: "string list \<Rightarrow> string" where
  "Sprintln [] = [CHR 0x0A]"
| "Sprintln [a] = a @ [CHR 0x0A]"
| "Sprintln (a # b # rest) = a @ '' '' @ Sprintln (b # rest)"

definition Fprintln :: "writer \<Rightarrow> string list \<Rightarrow> writer \<times> error option" where
  "Fprintln w operands =
     (if broken w then (w\<lparr>calls := calls w + 1\<rparr>, Some (ErrIO ''write failed''))
      else (w\<lparr>written := written w @ Sprintln operands, calls := calls w + 1\<rparr>, None))"

definition buffer :: writer where
  "buffer = \<lparr>written = [], broken = False, calls = 0\<rparr>"

subsection \<open>Read, Write and parse\<close>

text \<open>
  The loop of \<open>parse\<close>, one iteration for each call of \<open>ReadString\<close>. \<open>lineNum\<close> is a Go
  \<open>int\<close> that counts the lines read, far below \<open>2^63\<close>, so a \<open>nat\<close>. The result is the
  document as the loop leaves it and the error returned; \<open>None\<close> when the list of results
  ends while the loop still runs, that is, while \<open>parse\<close> would call \<open>ReadString\<close> again.
\<close>

fun parse :: "reader \<Rightarrow> string \<Rightarrow> nat \<Rightarrow> INI \<Rightarrow> (INI \<times> error option) option" where
  "parse [] section lineNum ini = None"
| "parse ((line0, err) # reader) section lineNum0 ini =
     (let done = (err = Some EOF);
          lineNum = lineNum0 + 1;
          line = TrimSpace line0
      in if length line = 0 then
           (if done then Some (ini, None) else parse reader section lineNum ini)
         else if hd line = CHR '';'' \<or> hd line = CHR ''#'' then
           (if done then Some (ini, None) else parse reader section lineNum ini)
         else
           (case FindStringSubmatch assignRegex line of
              Some groups \<Rightarrow>
                let key = TrimSpace (groups ! 1);
                    val = TrimSpace (groups ! 2);
                    ini1 = snd (AddOption ini section key val)
                in if done then Some (ini1, None) else parse reader section lineNum ini1
            | None \<Rightarrow>
                (case FindStringSubmatch sectionRegex line of
                   Some groups \<Rightarrow>
                     let name = TrimSpace (groups ! 1);
                         ini1 = snd (AddSection ini name)
                     in if done then Some (ini1, None) else parse reader name lineNum ini1
                 | None \<Rightarrow> Some (ini, Some (ErrSyntax lineNum line)))))"

definition Read :: "reader \<Rightarrow> bool \<Rightarrow> (INI \<times> error option) option" where
  "Read reader ord = parse reader [] 0 (NewINI ord)"

text \<open>
  \<open>Write\<close> ranges over the sections and, in each, over the options; \<open>rng\<close> and
  \<open>rngs section\<close> are the orders of the map iterations of an unordered document.
  The result of every \<open>Fprintln\<close> is dropped, and the error returned is \<open>nil\<close>.
\<close>

definition Write ::
  "INI \<Rightarrow> writer \<Rightarrow> string list \<Rightarrow> (string \<Rightarrow> string list) \<Rightarrow> writer \<times> error option" where
  "Write ini w rng rngs =
     (foldl (\<lambda>w section.
        let w1 = fst (Fprintln w [''['' @ section @ '']'']);
            w2 = foldl (\<lambda>w option.
                   let value = fst (GetOption ini section option)
                   in fst (Fprintln w [option, ''='', value]))
                 w1 (Options ini section (rngs section))
        in fst (Fprintln w2 []))
      w (Sections ini rng), None)"

subsection \<open>The classification of lines\<close>

text \<open>
  The words of the specification for a trimmed line: blank or comment, assignment, section
  header, and invalid when it is none of these. \<open>line_step\<close> is the effect of one valid line
  on the current section and the document, and \<open>trimmed_lines\<close> are the lines of a text as
  \<open>parse\<close> sees them.
\<close>

definition blank_or_comment :: "string \<Rightarrow> bool" where
  "blank_or_comment line = (length line = 0 \<or> hd line = CHR '';'' \<or> hd line = CHR ''#'')"

definition is_assignment :: "string \<Rightarrow> bool" where
  "is_assignment line =
     (\<not> blank_or_comment line \<and> FindStringSubmatch assignRegex line \<noteq> None)"

definition is_header :: "string \<Rightarrow> bool" where
  "is_header line =
     (\<not> blank_or_comment line \<and> FindStringSubmatch assignRegex line = None \<and>
      FindStringSubmatch sectionRegex line \<noteq> None)"

definition header_name :: "string \<Rightarrow> string" where
  "header_name line = TrimSpace (the (FindStringSubmatch sectionRegex line) ! 1)"

definition invalid_line :: "string \<Rightarrow> bool" where
  "invalid_line line =
     (\<not> blank_or_comment line \<and> FindStringSubmatch assignRegex line = None \<and>
      FindStringSubmatch sectionRegex line = None)"

definition line_step :: "string \<times> INI \<Rightarrow> string \<Rightarrow> string \<times> INI" where
  "line_step st line =
     (if blank_or_comment line then st
      else if is_assignment line then
        (let groups = the (FindStringSubmatch assignRegex line)
         in (fst st, snd (AddOption (snd st) (fst st) (TrimSpace (groups ! 1))
                            (TrimSpace (groups ! 2)))))
      else if is_header line then
        (header_name line, snd (AddSection (snd st) (header_name line)))
      else st)"

definition trimmed_lines :: "string \<Rightarrow> string list" where
  "trimmed_lines text = map (\<lambda>r. TrimSpace (fst r)) (string_reader text)"

text \<open>The number of the first invalid line, counted from 0; the number of lines if none is.\<close>

definition first_invalid :: "string list \<Rightarrow> nat" where
  "first_invalid ls = length (takeWhile (\<lambda>l. \<not> invalid_line l) ls)"

subsection \<open>Documents that survive a round trip\<close>

text \<open>
  \<open>plain\<close> is the condition of the specification on the bytes of a name or a value.
  \<open>claim_op\<close> holds of the calls from which the specification builds the documents of its
  round trip; \<open>roundtrip_op\<close> adds what the parser needs on top: no name and no value
  starts or ends with white space, and no option name is empty or starts a comment.
\<close>

definition plain :: "string \<Rightarrow> bool" where
  "plain x =
     (CHR ''='' \<notin> set x \<and> CHR ''['' \<notin> set x \<and> CHR '']'' \<notin> set x \<and> CHR 0x0A \<notin> set x)"

fun claim_op :: "op \<Rightarrow> bool" where
  "claim_op (OpAddSection s) = plain s"
| "claim_op (OpAddOption s k v) = (plain s \<and> plain k \<and> plain v \<and> v \<noteq> [])"
| "claim_op (OpRemoveSection s) = False"
| "claim_op (OpRemoveOption s k) = False"

definition roundtrip_name :: "string \<Rightarrow> bool" where
  "roundtrip_name x = (plain x \<and> TrimSpace x = x)"

definition roundtrip_key :: "string \<Rightarrow> bool" where
  "roundtrip_key x = (roundtrip_name x \<and> x \<noteq> [] \<and> hd x \<noteq> CHR '';'' \<and> hd x \<noteq> CHR ''#'')"

definition roundtrip_value :: "string \<Rightarrow> bool" where
  "roundtrip_value x = (roundtrip_name x \<and> x \<noteq> [])"

fun roundtrip_op :: "op \<Rightarrow> bool" where
  "roundtrip_op (OpAddSection s) = roundtrip_name s"
| "roundtrip_op (OpAddOption s k v) = (roundtrip_name s \<and> roundtrip_key k \<and> roundtrip_value v)"
| "roundtrip_op (OpRemoveSection s) = False"
| "roundtrip_op (OpRemoveOption s k) = False"

definition roundtrip_doc :: "INI \<Rightarrow> bool" where
  "roundtrip_doc ini =
     (\<forall>s opts. sections ini s = Some opts \<longrightarrow>
        roundtrip_name s \<and>
        (\<forall>k v. options opts k = Some v \<longrightarrow> roundtrip_key k \<and> roundtrip_value v))"

text \<open>
  The lines that \<open>Write\<close> prints for one section with the options \<open>names\<close>, and the part of
  a document or of an option set that the parser has rebuilt after the names \<open>ss\<close>.
\<close>

definition section_lines :: "INI \<Rightarrow> string \<Rightarrow> string list \<Rightarrow> string list" where
  "section_lines ini section names =
     (''['' @ section @ '']'') #
     map (\<lambda>option. option @ '' = '' @ fst (GetOption ini section option)) names @ [[]]"

definition prefix_options :: "iniOptions \<Rightarrow> string list \<Rightarrow> iniOptions" where
  "prefix_options opts ks =
     \<lparr>iniOptions.ordered = iniOptions.ordered opts,
      optionNames = (if iniOptions.ordered opts then ks else []),
      options = options opts |` set ks\<rparr>"

definition prefix_doc :: "INI \<Rightarrow> string list \<Rightarrow> INI" where
  "prefix_doc ini ss =
     \<lparr>INI.ordered = INI.ordered ini,
      sectionNames = (if INI.ordered ini then ss else []),
      sections = sections ini |` set ss\<rparr>"

text \<open>An ordered document consults no iteration order of a map.\<close>

definition unused_order :: "string \<Rightarrow> string list" where
  "unused_order section = []"

section \<open>Properties of the document model\<close>

subsection \<open>Auxiliary facts\<close>

lemmas INI_eval = AddOption_def AddSection_def RemoveOption_def RemoveSection_def HasSection_def
  HasOption_def GetOption_def NewINI_def newOptions_def add_def get_def remove_def exist_def
  delete_at_def Options_def Sections_def getOptions_def Let_def map_range_def

lemma foldl_snoc_id: "foldl (\<lambda>acc x. acc @ [x]) acc rng = acc @ rng"
  by (induction rng arbitrary: acc) auto

lemma last_index_notin: "t \<notin> set xs \<Longrightarrow> last_index xs t idx i = i"
  by (induction xs arbitrary: idx i) auto

lemma last_index_distinct:
  "distinct (ys @ t # zs) \<Longrightarrow> last_index (ys @ t # zs) t idx i = idx + length ys"
  by (induction ys arbitrary: idx i) (auto simp: last_index_notin)

lemma delete_at_distinct:
  assumes "t \<in> set xs" "distinct xs"
  shows "delete_at xs (last_index xs t 0 0) = Inr (filter (\<lambda>x. x \<noteq> t) xs)"
proof -
  from assms(1) obtain ys zs where xs: "xs = ys @ t # zs" by (auto simp: in_set_conv_decomp)
  with assms(2) have d: "distinct (ys @ t # zs)" by simp
  have li: "last_index (ys @ t # zs) t 0 0 = length ys" using last_index_distinct[OF d, of 0 0] by simp
  have f1: "filter (\<lambda>x. x \<noteq> t) ys = ys" using d by (auto simp: filter_id_conv)
  have f2: "filter (\<lambda>x. x \<noteq> t) zs = zs" using d by (auto simp: filter_id_conv)
  show ?thesis unfolding xs delete_at_def li by (simp add: f1 f2)
qed


lemma AddOption_fst: "fst (AddOption ini s k v) = True"
  by (simp add: AddOption_def add_def Let_def)

lemma HasSection_AddOption: "HasSection (snd (AddOption ini s k v)) s' = (s' = s \<or> HasSection ini s')"
  by (auto simp: AddOption_def AddSection_def HasSection_def Let_def)

lemma GetOption_AddOption_same: "GetOption (snd (AddOption ini s k v)) s k = (v, True)"
  by (simp add: AddOption_def GetOption_def get_def exist_def add_def Let_def)

text \<open>
  Claim C6. On a document that has no section \<open>s\<close>, \<open>AddOption s k v\<close> returns true, and
  afterwards \<open>HasSection s\<close> holds and \<open>GetOption s k\<close> returns \<open>(v, true)\<close>: the section
  is created on the way, as a fresh option set that holds \<open>k\<close> alone. The claim names the
  instance \<open>s = "new"\<close>, \<open>k = "k"\<close>, \<open>v = "v"\<close>.
\<close>

theorem C6_implicit_section_creation:
  "\<not> HasSection ini s \<Longrightarrow>
     fst (AddOption ini s k v) = True \<and>
     HasSection (snd (AddOption ini s k v)) s \<and>
     GetOption (snd (AddOption ini s k v)) s k = (v, True) \<and>
     sections (snd (AddOption ini s k v)) s =
       Some ((newOptions (INI.ordered ini))
          \<lparr>optionNames := (if INI.ordered ini then [k] else []), options := [k \<mapsto> v]\<rparr>)"
  by (auto simp: AddOption_def AddSection_def HasSection_def GetOption_def get_def exist_def add_def Let_def newOptions_def)

theorem C6_witness:
  "\<not> HasSection (NewINI True) ''new'' \<and>
   HasSection (snd (AddOption (NewINI True) ''new'' ''k'' ''v'')) ''new'' \<and>
   GetOption (snd (AddOption (NewINI True) ''new'' ''k'' ''v'')) ''new'' ''k'' = (''v'', True)"
proof -
  have h: "\<not> HasSection (NewINI True) ''new''" by (simp add: HasSection_def NewINI_def)
  from C6_implicit_section_creation[OF h, of "''k''" "''v''"] h show ?thesis by simp
qed


lemma ordered_add: "iniOptions.ordered (snd (add opts k v)) = iniOptions.ordered opts"
  by (simp add: add_def Let_def)

lemma options_inv_add: "options_inv opts \<Longrightarrow> options_inv (snd (add opts k v))"
  by (auto simp: options_inv_def add_def Let_def exist_def)

lemma optionNames_add:
  "options_inv opts \<Longrightarrow> iniOptions.ordered opts \<Longrightarrow>
   optionNames (snd (add opts k v)) = spec_insert k (optionNames opts)"
  by (auto simp: options_inv_def add_def Let_def exist_def spec_insert_def)

lemma remove_inv:
  assumes "options_inv opts"
  shows "\<exists>b opts'. remove opts k = Inr (b, opts') \<and> options_inv opts' \<and>
           iniOptions.ordered opts' = iniOptions.ordered opts \<and>
           b = exist opts k \<and>
           options opts' = (options opts)(k := None) \<and>
           (iniOptions.ordered opts \<longrightarrow> optionNames opts' = spec_delete k (optionNames opts))"
proof (cases "exist opts k")
  case False
  then have "k \<notin> dom (options opts)" by (auto simp: exist_def)
  then have "(options opts)(k := None) = options opts" by (auto simp: fun_eq_iff)
  moreover have "iniOptions.ordered opts \<Longrightarrow> spec_delete k (optionNames opts) = optionNames opts"
    using assms \<open>k \<notin> dom (options opts)\<close> by (auto simp: options_inv_def spec_delete_def filter_id_conv)
  ultimately show ?thesis using False assms by (auto simp: remove_def)
next
  case True
  show ?thesis
  proof (cases "iniOptions.ordered opts")
    case False
    with True assms show ?thesis by (auto simp: remove_def options_inv_def Let_def)
  next
    case ord: True
    with assms have inv: "set (optionNames opts) = dom (options opts)" "distinct (optionNames opts)"
      by (auto simp: options_inv_def)
    from True inv have "k \<in> set (optionNames opts)" by (auto simp: exist_def)
    from delete_at_distinct[OF this inv(2)]
    have d: "delete_at (optionNames opts) (last_index (optionNames opts) k 0 0) =
             Inr (filter (\<lambda>x. x \<noteq> k) (optionNames opts))" .
    show ?thesis using True ord inv d
      by (auto simp: remove_def Let_def options_inv_def spec_delete_def)
  qed
qed


lemma INI_inv_NewINI: "INI_inv (NewINI b)"
  by (simp add: INI_inv_def NewINI_def)

lemma ordered_AddSection: "INI.ordered (snd (AddSection ini s)) = INI.ordered ini"
  by (simp add: AddSection_def Let_def)

lemma ordered_AddOption: "INI.ordered (snd (AddOption ini s k v)) = INI.ordered ini"
  by (simp add: AddOption_def AddSection_def Let_def)

lemma ran_upd_subset: "ran (m(k \<mapsto> v)) \<subseteq> insert v (ran m)"
  by (auto simp: ran_def)

lemma ran_del_subset: "ran (m(k := None)) \<subseteq> ran m"
  by (auto simp: ran_def)

lemma INI_inv_AddSection: "INI_inv ini \<Longrightarrow> INI_inv (snd (AddSection ini s))"
  unfolding INI_inv_def AddSection_def Let_def HasSection_def
  using ran_upd_subset[of "sections ini" s "newOptions (INI.ordered ini)"]
  by (auto simp: options_inv_def newOptions_def dest!: subsetD)

lemma sectionNames_AddSection:
  "INI_inv ini \<Longrightarrow> INI.ordered ini \<Longrightarrow>
   sectionNames (snd (AddSection ini s)) = spec_insert s (sectionNames ini)"
  by (auto simp: INI_inv_def AddSection_def Let_def HasSection_def spec_insert_def)

lemma sections_AddSection:
  "sections (snd (AddSection ini s)) =
     (if HasSection ini s then sections ini else (sections ini)(s \<mapsto> newOptions (INI.ordered ini)))"
  by (auto simp: AddSection_def Let_def)

lemma INI_inv_update_section:
  assumes "INI_inv ini" "sections ini s \<noteq> None" "options_inv opts"
    "iniOptions.ordered opts = INI.ordered ini"
  shows "INI_inv (ini\<lparr>sections := (sections ini)(s \<mapsto> opts)\<rparr>)"
proof -
  have "dom ((sections ini)(s \<mapsto> opts)) = dom (sections ini)" using assms(2) by auto
  moreover have "\<forall>x \<in> ran ((sections ini)(s \<mapsto> opts)). options_inv x \<and> iniOptions.ordered x = INI.ordered ini"
    using ran_upd_subset[of "sections ini" s opts] assms by (auto simp: INI_inv_def)
  ultimately show ?thesis using assms(1) by (simp add: INI_inv_def)
qed

lemma AddOption_unfold:
  "snd (AddOption ini s k v) =
     (let ini1 = snd (AddSection ini s)
      in ini1\<lparr>sections := (sections ini1)(s \<mapsto> snd (add (the (sections ini1 s)) k v))\<rparr>)"
  by (auto simp: AddOption_def Let_def AddSection_def)

lemma INI_inv_AddOption:
  assumes "INI_inv ini"
  shows "INI_inv (snd (AddOption ini s k v))"
proof -
  let ?ini1 = "snd (AddSection ini s)"
  have i1: "INI_inv ?ini1" by (rule INI_inv_AddSection[OF assms])
  have ex: "sections ?ini1 s \<noteq> None" by (auto simp: sections_AddSection HasSection_def)
  then obtain o1 where o1: "sections ?ini1 s = Some o1" by auto
  then have "o1 \<in> ran (sections ?ini1)" by (auto simp: ran_def)
  with i1 have oi: "options_inv o1" "iniOptions.ordered o1 = INI.ordered ?ini1"
    by (auto simp: INI_inv_def)
  show ?thesis unfolding AddOption_unfold Let_def
    by (rule INI_inv_update_section[OF i1 ex]) (simp_all add: o1 oi options_inv_add ordered_add)
qed

lemma RemoveSection_inv:
  assumes "INI_inv ini"
  shows "\<exists>b ini'. RemoveSection ini s = Inr (b, ini') \<and> INI_inv ini' \<and>
           INI.ordered ini' = INI.ordered ini \<and> b = HasSection ini s \<and>
           sections ini' = (sections ini)(s := None) \<and>
           (INI.ordered ini \<longrightarrow> sectionNames ini' = spec_delete s (sectionNames ini))"
proof (cases "HasSection ini s")
  case False
  then have nd: "s \<notin> dom (sections ini)" by (auto simp: HasSection_def)
  then have "(sections ini)(s := None) = sections ini" by (auto simp: fun_eq_iff)
  moreover have "INI.ordered ini \<Longrightarrow> spec_delete s (sectionNames ini) = sectionNames ini"
    using assms nd by (auto simp: INI_inv_def spec_delete_def filter_id_conv)
  ultimately show ?thesis using False assms by (auto simp: RemoveSection_def)
next
  case True
  have rn: "\<forall>x \<in> ran ((sections ini)(s := None)). options_inv x \<and> iniOptions.ordered x = INI.ordered ini"
    using ran_del_subset[of "sections ini" s] assms by (auto simp: INI_inv_def)
  show ?thesis
  proof (cases "INI.ordered ini")
    case False
    with True assms rn show ?thesis by (auto simp: RemoveSection_def INI_inv_def Let_def)
  next
    case ord: True
    with assms have inv: "set (sectionNames ini) = dom (sections ini)" "distinct (sectionNames ini)"
      by (auto simp: INI_inv_def)
    from True inv have "s \<in> set (sectionNames ini)" by (auto simp: HasSection_def)
    from delete_at_distinct[OF this inv(2)]
    have d: "delete_at (sectionNames ini) (last_index (sectionNames ini) s 0 0) =
             Inr (filter (\<lambda>x. x \<noteq> s) (sectionNames ini))" .
    show ?thesis using True ord inv d rn
      by (auto simp: RemoveSection_def Let_def INI_inv_def spec_delete_def)
  qed
qed

lemma RemoveOption_inv:
  assumes "INI_inv ini"
  shows "\<exists>b ini'. RemoveOption ini s k = Inr (b, ini') \<and> INI_inv ini' \<and>
           INI.ordered ini' = INI.ordered ini \<and> b = HasOption ini s k \<and>
           sectionNames ini' = sectionNames ini \<and>
           sections ini' = (case sections ini s of None \<Rightarrow> sections ini
              | Some opts \<Rightarrow> (sections ini)(s \<mapsto> snd (projr (remove opts k))))"
proof (cases "sections ini s")
  case None
  then show ?thesis using assms by (auto simp: RemoveOption_def HasSection_def HasOption_def)
next
  case (Some opts)
  then have "opts \<in> ran (sections ini)" by (auto simp: ran_def)
  with assms have oi: "options_inv opts" "iniOptions.ordered opts = INI.ordered ini"
    by (auto simp: INI_inv_def)
  from remove_inv[OF oi(1), of k] obtain b opts' where
    r: "remove opts k = Inr (b, opts')" "options_inv opts'"
       "iniOptions.ordered opts' = iniOptions.ordered opts" "b = exist opts k" by blast
  have "INI_inv (ini\<lparr>sections := (sections ini)(s \<mapsto> opts')\<rparr>)"
    by (rule INI_inv_update_section[OF assms]) (simp_all add: Some r oi)
  then show ?thesis using Some r
    by (auto simp: RemoveOption_def HasSection_def HasOption_def)
qed

lemma apply_op_inv:
  assumes "INI_inv ini"
  shows "\<exists>ini'. apply_op ini x = Inr ini' \<and> INI_inv ini' \<and> INI.ordered ini' = INI.ordered ini"
proof (cases x)
  case (OpAddSection s)
  then show ?thesis using assms by (simp add: INI_inv_AddSection ordered_AddSection)
next
  case (OpAddOption s k v)
  then show ?thesis using assms by (simp add: INI_inv_AddOption ordered_AddOption)
next
  case (OpRemoveSection s)
  then show ?thesis using RemoveSection_inv[OF assms, of s] by auto
next
  case (OpRemoveOption s k)
  then show ?thesis using RemoveOption_inv[OF assms, of s k] by auto
qed

lemma apply_ops_inv:
  "INI_inv ini \<Longrightarrow>
   \<exists>ini'. apply_ops ini xs = Inr ini' \<and> INI_inv ini' \<and> INI.ordered ini' = INI.ordered ini"
proof (induction xs arbitrary: ini)
  case Nil
  then show ?case by simp
next
  case (Cons x xs)
  from apply_op_inv[OF Cons.prems, of x] obtain ini1 where
    s: "apply_op ini x = Inr ini1" "INI_inv ini1" "INI.ordered ini1 = INI.ordered ini" by blast
  from Cons.IH[OF s(2)] s show ?case by auto
qed


lemma Options_ordered:
  "INI_inv ini \<Longrightarrow> INI.ordered ini \<Longrightarrow>
   Options ini s rng = (case sections ini s of None \<Rightarrow> [] | Some opts \<Rightarrow> optionNames opts)"
  by (auto simp: Options_def HasSection_def getOptions_def INI_inv_def ran_def split: option.splits)

lemma Sections_ordered: "INI.ordered ini \<Longrightarrow> Sections ini rng = sectionNames ini"
  by (simp add: Sections_def)

lemma apply_op_order:
  assumes inv: "INI_inv ini" and ord: "INI.ordered ini" and ap: "apply_op ini x = Inr ini'"
  shows "sectionNames ini' = spec_section_order (sectionNames ini) [x] \<and>
         Options ini' s rng' = spec_option_order s (Options ini s rng) [x]"
proof -
  from apply_op_inv[OF inv, of x] ap have inv': "INI_inv ini'" and ord': "INI.ordered ini'"
    using ord by auto
  note O = Options_ordered[OF inv ord] Options_ordered[OF inv' ord']
  show ?thesis
  proof (cases x)
    case (OpAddSection s1)
    then have e: "ini' = snd (AddSection ini s1)" using ap by simp
    show ?thesis unfolding O unfolding e OpAddSection
      using sectionNames_AddSection[OF inv ord, of s1]
      by (auto simp: sections_AddSection HasSection_def newOptions_def split: option.splits)
  next
    case (OpAddOption s1 k v)
    then have e: "ini' = snd (AddOption ini s1 k v)" using ap by simp
    have i1: "INI_inv (snd (AddSection ini s1))" by (rule INI_inv_AddSection[OF inv])
    have n: "sectionNames ini' = spec_insert s1 (sectionNames ini)"
      unfolding e AddOption_unfold Let_def using sectionNames_AddSection[OF inv ord, of s1] by simp
    have "Options ini' s rng' = spec_option_order s (Options ini s rng) [x]"
    proof (cases "sections ini s1")
      case None
      then show ?thesis unfolding O unfolding e OpAddOption AddOption_unfold Let_def
        using ord
        by (auto simp: sections_AddSection HasSection_def newOptions_def add_def exist_def
            spec_insert_def split: option.splits)
    next
      case (Some opts)
      then have "opts \<in> ran (sections ini)" by (auto simp: ran_def)
      with inv ord have oi: "options_inv opts" "iniOptions.ordered opts" by (auto simp: INI_inv_def)
      show ?thesis unfolding O unfolding e OpAddOption AddOption_unfold Let_def
        using Some optionNames_add[OF oi, of k v]
        by (auto simp: sections_AddSection HasSection_def split: option.splits)
    qed
    with n show ?thesis by (simp add: OpAddOption)
  next
    case (OpRemoveSection s1)
    from RemoveSection_inv[OF inv, of s1] ap OpRemoveSection ord
    have "sections ini' = (sections ini)(s1 := None)"
      "sectionNames ini' = spec_delete s1 (sectionNames ini)" by auto
    then show ?thesis unfolding O OpRemoveSection by (auto split: option.splits)
  next
    case (OpRemoveOption s1 k)
    from RemoveOption_inv[OF inv, of s1 k] ap OpRemoveOption ord
    have r: "sectionNames ini' = sectionNames ini"
      "sections ini' = (case sections ini s1 of None \<Rightarrow> sections ini
              | Some opts \<Rightarrow> (sections ini)(s1 \<mapsto> snd (projr (remove opts k))))" by auto
    have "Options ini' s rng' = spec_option_order s (Options ini s rng) [x]"
    proof (cases "sections ini s1")
      case None
      then show ?thesis unfolding O r OpRemoveOption by (auto simp: spec_delete_def)
    next
      case (Some opts)
      then have "opts \<in> ran (sections ini)" by (auto simp: ran_def)
      with inv ord have oi: "options_inv opts" "iniOptions.ordered opts" by (auto simp: INI_inv_def)
      from remove_inv[OF oi(1), of k] oi(2)
      have "optionNames (snd (projr (remove opts k))) = spec_delete k (optionNames opts)" by auto
      then show ?thesis unfolding O r OpRemoveOption using Some by auto
    qed
    with r(1) show ?thesis by (simp add: OpRemoveOption)
  qed
qed

lemma spec_section_order_Cons:
  "spec_section_order names (x # xs) = spec_section_order (spec_section_order names [x]) xs"
  by (cases x) simp_all

lemma spec_option_order_Cons:
  "spec_option_order s names (x # xs) = spec_option_order s (spec_option_order s names [x]) xs"
  by (cases x) simp_all

lemma apply_ops_order:
  "INI_inv ini \<Longrightarrow> INI.ordered ini \<Longrightarrow> apply_ops ini xs = Inr ini' \<Longrightarrow>
   sectionNames ini' = spec_section_order (sectionNames ini) xs \<and>
   Options ini' s rng' = spec_option_order s (Options ini s rng) xs"
proof (induction xs arbitrary: ini rng)
  case Nil
  then show ?case by (simp add: Options_ordered)
next
  case (Cons x xs)
  from apply_op_inv[OF Cons.prems(1), of x] obtain ini1 where
    s: "apply_op ini x = Inr ini1" "INI_inv ini1" "INI.ordered ini1 = INI.ordered ini" by blast
  with Cons.prems have r: "apply_ops ini1 xs = Inr ini'" and o1: "INI.ordered ini1" by auto
  from apply_op_order[OF Cons.prems(1,2) s(1), of s rng rng]
  have st: "sectionNames ini1 = spec_section_order (sectionNames ini) [x]"
    "Options ini1 s rng = spec_option_order s (Options ini s rng) [x]" by auto
  from Cons.IH[OF s(2) o1 r, of rng] st show ?case
    by (simp add: spec_section_order_Cons[of _ x xs] spec_option_order_Cons[of _ _ x xs])
qed

text \<open>
  Claim C4. Every sequence of additions and removals runs on a fresh ordered document without
  a panic, and afterwards \<open>Sections\<close> and \<open>Options\<close> return the names in first-insertion
  order as \<open>spec_section_order\<close> and \<open>spec_option_order\<close> define it: a new name goes to
  the end, a name added again keeps its place, and a removal leaves the other names in the
  order they had.
\<close>

theorem C4_order_preservation:
  "\<exists>ini. apply_ops (NewINI True) xs = Inr ini \<and>
      Sections ini rng = spec_section_order [] xs \<and>
      Options ini s rng' = spec_option_order s [] xs"
proof -
  from apply_ops_inv[OF INI_inv_NewINI, of True xs] obtain ini where
    i: "apply_ops (NewINI True) xs = Inr ini" "INI_inv ini" "INI.ordered ini = INI.ordered (NewINI True)"
    by blast
  have o: "INI.ordered (NewINI True)" by (simp add: NewINI_def)
  have "Options (NewINI True) s rng' = []" by (simp add: Options_def HasSection_def NewINI_def)
  with apply_ops_order[OF INI_inv_NewINI o i(1), of s rng' rng'] i(3) o
  have "Sections ini rng = spec_section_order [] xs \<and> Options ini s rng' = spec_option_order s [] xs"
    by (simp add: Sections_ordered NewINI_def)
  with i(1) show ?thesis by blast
qed


theorem C4_witness:
  "\<exists>ini. apply_ops (NewINI True)
            [OpAddSection ''a'', OpAddOption ''b'' ''k'' ''v'', OpAddSection ''c'',
             OpAddOption ''b'' ''j'' ''w'', OpRemoveSection ''a'', OpAddOption ''b'' ''k'' ''x'',
             OpAddSection ''a''] = Inr ini \<and>
         Sections ini [] = [''b'', ''c'', ''a''] \<and>
         Options ini ''b'' [] = [''k'', ''j'']"
  using C4_order_preservation[of "[OpAddSection ''a'', OpAddOption ''b'' ''k'' ''v'', OpAddSection ''c'',
             OpAddOption ''b'' ''j'' ''w'', OpRemoveSection ''a'', OpAddOption ''b'' ''k'' ''x'',
             OpAddSection ''a'']" "[]" "''b''" "[]"]
  by (simp add: spec_insert_def spec_delete_def)

text \<open>
  Claim C5. Every sequence of \<open>AddSection\<close>, \<open>AddOption\<close>, \<open>RemoveSection\<close> and
  \<open>RemoveOption\<close> calls runs on a fresh document without a panic and leaves a document in
  which, when ordered, \<open>sectionNames\<close> has no duplicates and holds exactly the keys of
  \<open>sections\<close>, and when unordered, \<open>sectionNames\<close> is empty; the same holds of
  \<open>optionNames\<close> and \<open>options\<close> in every section.
\<close>

theorem C5_invariant:
  "\<exists>ini. apply_ops (NewINI ord) xs = Inr ini \<and> INI.ordered ini = ord \<and>
     (if ord then set (sectionNames ini) = dom (sections ini) \<and> distinct (sectionNames ini)
      else sectionNames ini = []) \<and>
     (\<forall>s opts. sections ini s = Some opts \<longrightarrow>
        iniOptions.ordered opts = ord \<and>
        (if ord then set (optionNames opts) = dom (options opts) \<and> distinct (optionNames opts)
         else optionNames opts = []))"
proof -
  from apply_ops_inv[OF INI_inv_NewINI, of ord xs] obtain ini where
    i: "apply_ops (NewINI ord) xs = Inr ini" "INI_inv ini" "INI.ordered ini = INI.ordered (NewINI ord)"
    by blast
  have o: "INI.ordered ini = ord" using i(3) by (simp add: NewINI_def)
  have "\<And>s opts. sections ini s = Some opts \<Longrightarrow> opts \<in> ran (sections ini)"
    by (auto simp: ran_def)
  with i(2) o have "(if ord then set (sectionNames ini) = dom (sections ini) \<and> distinct (sectionNames ini)
      else sectionNames ini = []) \<and>
     (\<forall>s opts. sections ini s = Some opts \<longrightarrow>
        iniOptions.ordered opts = ord \<and>
        (if ord then set (optionNames opts) = dom (options opts) \<and> distinct (optionNames opts)
         else optionNames opts = []))"
    unfolding INI_inv_def options_inv_def by (auto split: if_splits)
  with i(1) o show ?thesis by blast
qed

theorem C5_witness:
  "\<exists>ini. apply_ops (NewINI True)
            [OpAddOption ''s'' ''k'' ''v'', OpAddSection ''t'', OpRemoveOption ''s'' ''k'',
             OpAddOption ''s'' ''j'' ''w'', OpRemoveSection ''t''] = Inr ini \<and>
       sections ini ''s'' \<noteq> None \<and>
       set (sectionNames ini) = dom (sections ini) \<and> distinct (sectionNames ini) \<and>
       set (optionNames (the (sections ini ''s''))) = dom (options (the (sections ini ''s''))) \<and>
       distinct (optionNames (the (sections ini ''s'')))"
proof -
  let ?xs = "[OpAddOption ''s'' ''k'' ''v'', OpAddSection ''t'', OpRemoveOption ''s'' ''k'',
             OpAddOption ''s'' ''j'' ''w'', OpRemoveSection ''t'']"
  from C5_invariant[of True ?xs] obtain ini where
    i: "apply_ops (NewINI True) ?xs = Inr ini"
       "set (sectionNames ini) = dom (sections ini)" "distinct (sectionNames ini)"
       "\<forall>s opts. sections ini s = Some opts \<longrightarrow>
          (set (optionNames opts) = dom (options opts) \<and> distinct (optionNames opts))"
    by auto
  have e: "sections ini ''s'' \<noteq> None"
    using i(1)
    by (auto simp: AddOption_def AddSection_def RemoveOption_def RemoveSection_def HasSection_def
        NewINI_def newOptions_def add_def remove_def exist_def delete_at_def Let_def)
  with i show ?thesis by auto
qed


lemma count_list_distinct: "distinct xs \<Longrightarrow> x \<in> set xs \<Longrightarrow> count_list xs x = 1"
  by (induction xs) (auto simp: count_list_0_iff)

lemma AddOption_twice:
  "snd (AddOption (snd (AddOption ini s k v1)) s k v2) =
   (snd (AddOption ini s k v1))
     \<lparr>sections := (sections (snd (AddOption ini s k v1)))
        (s \<mapsto> (the (sections (snd (AddOption ini s k v1)) s))\<lparr>options :=
              (options (the (sections (snd (AddOption ini s k v1)) s)))(k \<mapsto> v2)\<rparr>)\<rparr>"
  by (simp add: AddOption_def AddSection_def HasSection_def add_def exist_def Let_def)

text \<open>
  Claim C7. On every document a client can reach, \<open>AddOption s k v1\<close> followed by
  \<open>AddOption s k v2\<close> returns true twice and leaves \<open>k\<close> once in the options of \<open>s\<close>, with
  the value \<open>v2\<close>; in ordered mode the second call leaves the list of options as the first
  call made it, and the first call appends \<open>k\<close> only when it was absent. For an unordered
  document \<open>rng\<close> is the order in which the runtime ranges over the options.
\<close>

theorem C7_overwrite:
  assumes reach: "apply_ops (NewINI ord) xs = Inr ini"
    and rng: "\<not> ord \<Longrightarrow>
       map_range (options (the (sections (snd (AddOption (snd (AddOption ini s k v1)) s k v2)) s))) rng"
  shows "fst (AddOption ini s k v1) = True \<and>
         fst (AddOption (snd (AddOption ini s k v1)) s k v2) = True \<and>
         GetOption (snd (AddOption (snd (AddOption ini s k v1)) s k v2)) s k = (v2, True) \<and>
         count_list (Options (snd (AddOption (snd (AddOption ini s k v1)) s k v2)) s rng) k = 1 \<and>
         (ord \<longrightarrow>
            Options (snd (AddOption (snd (AddOption ini s k v1)) s k v2)) s rng =
              Options (snd (AddOption ini s k v1)) s rng \<and>
            Options (snd (AddOption ini s k v1)) s rng =
              (if k \<in> set (Options ini s rng) then Options ini s rng else Options ini s rng @ [k]))"
proof -
  let ?i1 = "snd (AddOption ini s k v1)"
  let ?i2 = "snd (AddOption ?i1 s k v2)"
  from apply_ops_inv[OF INI_inv_NewINI, of ord xs] reach
  have inv: "INI_inv ini" and o: "INI.ordered ini = ord" by (auto simp: NewINI_def)
  have inv1: "INI_inv ?i1" by (rule INI_inv_AddOption[OF inv])
  have inv2: "INI_inv ?i2" by (rule INI_inv_AddOption[OF inv1])
  have o1: "INI.ordered ?i1 = ord" and o2: "INI.ordered ?i2 = ord"
    by (simp_all add: ordered_AddOption o)
  have h2: "HasSection ?i2 s" by (simp add: HasSection_AddOption)
  then obtain opts2 where s2: "sections ?i2 s = Some opts2" by (auto simp: HasSection_def)
  then have "opts2 \<in> ran (sections ?i2)" by (auto simp: ran_def)
  with inv2 o2 have oi2: "options_inv opts2" "iniOptions.ordered opts2 = ord"
    by (auto simp: INI_inv_def)
  have g2: "GetOption ?i2 s k = (v2, True)" by (rule GetOption_AddOption_same)
  then have kin: "k \<in> dom (options opts2)"
    using s2 by (auto simp: GetOption_def get_def exist_def split: if_splits)
  have cnt: "count_list (Options ?i2 s rng) k = 1"
  proof (cases ord)
    case True
    with oi2 have "set (optionNames opts2) = dom (options opts2)" "distinct (optionNames opts2)"
      by (auto simp: options_inv_def)
    with kin have "count_list (optionNames opts2) k = 1" by (intro count_list_distinct) auto
    then show ?thesis using s2 h2 oi2 True by (simp add: Options_def getOptions_def)
  next
    case False
    from rng[OF False] s2 have "distinct rng" "set rng = dom (options opts2)"
      by (auto simp: map_range_def)
    with kin have "count_list rng k = 1" by (intro count_list_distinct) auto
    then show ?thesis using s2 h2 oi2 False by (simp add: Options_def getOptions_def foldl_snoc_id)
  qed
  have pos: "Options ?i2 s rng = Options ?i1 s rng" if "ord"
  proof -
    from that o1 o2 have t: "INI.ordered ?i1" "INI.ordered ?i2" by simp_all
    have h1: "sections ?i1 s \<noteq> None" using HasSection_AddOption[of ini s k v1 s]
      by (simp add: HasSection_def)
    show ?thesis
      unfolding Options_ordered[OF inv2 t(2)] Options_ordered[OF inv1 t(1)]
      by (subst AddOption_twice) (use h1 in \<open>auto split: option.splits\<close>)
  qed
  have ap: "apply_op ini (OpAddOption s k v1) = Inr ?i1" by simp
  have first: "Options ?i1 s rng =
     (if k \<in> set (Options ini s rng) then Options ini s rng else Options ini s rng @ [k])" if "ord"
    using apply_op_order[OF inv _ ap, of s rng rng] o that by (simp add: spec_insert_def)
  show ?thesis using cnt g2 pos first by (simp add: AddOption_fst)
qed

theorem C7_witness:
  "apply_ops (NewINI True) [OpAddOption ''s'' ''a'' ''1''] =
     Inr \<lparr>INI.ordered = True, sectionNames = [''s''],
          sections = [''s'' \<mapsto> \<lparr>iniOptions.ordered = True, optionNames = [''a''],
                                  options = [''a'' \<mapsto> ''1'']\<rparr>]\<rparr> \<and>
   Options (snd (AddOption (snd (AddOption
        \<lparr>INI.ordered = True, sectionNames = [''s''],
          sections = [''s'' \<mapsto> \<lparr>iniOptions.ordered = True, optionNames = [''a''],
                                  options = [''a'' \<mapsto> ''1'']\<rparr>]\<rparr>
        ''s'' ''k'' ''v1'')) ''s'' ''k'' ''v2'')) ''s'' [] = [''a'', ''k''] \<and>
   map_range (options (the (sections
       (snd (AddOption (snd (AddOption (NewINI False) ''s'' ''k'' ''v1'')) ''s'' ''k'' ''v2'')) ''s'')))
     [''k''] \<and>
   count_list (Options
       (snd (AddOption (snd (AddOption (NewINI False) ''s'' ''k'' ''v1'')) ''s'' ''k'' ''v2''))
       ''s'' [''k'']) ''k'' = 1 \<and>
   GetOption (snd (AddOption (snd (AddOption (NewINI False) ''s'' ''k'' ''v1'')) ''s'' ''k'' ''v2''))
       ''s'' ''k'' = (''v2'', True)"
proof -
  let ?I = "\<lparr>INI.ordered = True, sectionNames = [''s''],
          sections = [''s'' \<mapsto> \<lparr>iniOptions.ordered = True, optionNames = [''a''],
                                  options = [''a'' \<mapsto> ''1'']\<rparr>]\<rparr>"
  have r1: "apply_ops (NewINI True) [OpAddOption ''s'' ''a'' ''1''] = Inr ?I"
    by (simp add: INI_eval)
  have e1: "Options ?I ''s'' [] = [''a'']" by (simp add: INI_eval)
  have r2: "apply_ops (NewINI False) [] = Inr (NewINI False)" by simp
  have m: "map_range (options (the (sections
       (snd (AddOption (snd (AddOption (NewINI False) ''s'' ''k'' ''v1'')) ''s'' ''k'' ''v2'')) ''s'')))
     [''k'']" by (simp add: INI_eval)
  from C7_overwrite[OF r1, of "''s''" "''k''" "''v1''" "''v2''" "[]"] e1
  have a: "Options (snd (AddOption (snd (AddOption ?I ''s'' ''k'' ''v1'')) ''s'' ''k'' ''v2'')) ''s'' []
            = [''a'', ''k'']" by simp
  from C7_overwrite[OF r2, of "''s''" "''k''" "''v1''" "''v2''" "[''k'']"] m
  have b: "count_list (Options
       (snd (AddOption (snd (AddOption (NewINI False) ''s'' ''k'' ''v1'')) ''s'' ''k'' ''v2''))
       ''s'' [''k'']) ''k'' = 1 \<and>
   GetOption (snd (AddOption (snd (AddOption (NewINI False) ''s'' ''k'' ''v1'')) ''s'' ''k'' ''v2''))
       ''s'' ''k'' = (''v2'', True)" by simp
  from r1 a m b show ?thesis by simp
qed

text \<open>
  Claim C8. When \<open>RemoveOption s k\<close> returns true, \<open>HasOption s k\<close> is false afterwards and
  \<open>GetOption s k\<close> returns not-found; removing an option or a section that does not exist
  returns false and leaves the document as it was, in every field.
\<close>

theorem C8_removal:
  "(RemoveOption ini s k = Inr (True, ini') \<longrightarrow>
      \<not> HasOption ini' s k \<and> GetOption ini' s k = ('''', False)) \<and>
   (\<not> HasOption ini s k \<longrightarrow> RemoveOption ini s k = Inr (False, ini)) \<and>
   (\<not> HasSection ini s \<longrightarrow> RemoveSection ini s = Inr (False, ini))"
proof (intro conjI impI)
  assume r: "RemoveOption ini s k = Inr (True, ini')"
  then obtain opts where so: "sections ini s = Some opts"
    by (auto simp: RemoveOption_def HasSection_def split: if_splits)
  from r so obtain opts' where
    rm: "remove opts k = Inr (True, opts')" and
    i': "ini' = ini\<lparr>sections := (sections ini)(s \<mapsto> opts')\<rparr>"
    by (auto simp: RemoveOption_def HasSection_def split: sum.splits)
  from rm have "options opts' k = None"
    by (auto simp: remove_def Let_def split: if_splits sum.splits)
  with i' show "\<not> HasOption ini' s k" "GetOption ini' s k = ('''', False)"
    by (simp_all add: HasOption_def HasSection_def GetOption_def get_def exist_def)
next
  assume n: "\<not> HasOption ini s k"
  show "RemoveOption ini s k = Inr (False, ini)"
  proof (cases "sections ini s")
    case None
    then show ?thesis by (simp add: RemoveOption_def HasSection_def)
  next
    case (Some opts)
    with n have "\<not> exist opts k" by (simp add: HasOption_def HasSection_def)
    moreover have "(sections ini)(s \<mapsto> opts) = sections ini" using Some by (rule map_upd_triv)
    ultimately show ?thesis using Some by (simp add: RemoveOption_def HasSection_def remove_def)
  qed
next
  assume "\<not> HasSection ini s"
  then show "RemoveSection ini s = Inr (False, ini)" by (simp add: RemoveSection_def)
qed

theorem C8_witness:
  "RemoveOption (snd (AddOption (NewINI True) ''s'' ''k'' ''v'')) ''s'' ''k'' =
     Inr (True, \<lparr>INI.ordered = True, sectionNames = [''s''],
                 sections = [''s'' \<mapsto> \<lparr>iniOptions.ordered = True, optionNames = [],
                                         options = Map.empty\<rparr>]\<rparr>) \<and>
   \<not> HasOption \<lparr>INI.ordered = True, sectionNames = [''s''],
                 sections = [''s'' \<mapsto> \<lparr>iniOptions.ordered = True, optionNames = [],
                                         options = Map.empty\<rparr>]\<rparr> ''s'' ''k'' \<and>
   GetOption \<lparr>INI.ordered = True, sectionNames = [''s''],
                 sections = [''s'' \<mapsto> \<lparr>iniOptions.ordered = True, optionNames = [],
                                         options = Map.empty\<rparr>]\<rparr> ''s'' ''k'' = ('''', False) \<and>
   \<not> HasOption (snd (AddOption (NewINI True) ''s'' ''k'' ''v'')) ''s'' ''j'' \<and>
   RemoveOption (snd (AddOption (NewINI True) ''s'' ''k'' ''v'')) ''s'' ''j'' =
     Inr (False, snd (AddOption (NewINI True) ''s'' ''k'' ''v'')) \<and>
   \<not> HasSection (snd (AddOption (NewINI True) ''s'' ''k'' ''v'')) ''t'' \<and>
   RemoveSection (snd (AddOption (NewINI True) ''s'' ''k'' ''v'')) ''t'' =
     Inr (False, snd (AddOption (NewINI True) ''s'' ''k'' ''v''))"
proof -
  let ?I = "snd (AddOption (NewINI True) ''s'' ''k'' ''v'')"
  let ?I' = "\<lparr>INI.ordered = True, sectionNames = [''s''],
                 sections = [''s'' \<mapsto> \<lparr>iniOptions.ordered = True, optionNames = [],
                                         options = Map.empty\<rparr>]\<rparr>"
  have h1: "RemoveOption ?I ''s'' ''k'' = Inr (True, ?I')"
    by (simp add: INI_eval)
  have h2: "\<not> HasOption ?I ''s'' ''j''" by (simp add: INI_eval)
  have h3: "\<not> HasSection ?I ''t''" by (simp add: INI_eval)
  from C8_removal[of ?I "''s''" "''k''" ?I'] h1
  have a: "\<not> HasOption ?I' ''s'' ''k'' \<and> GetOption ?I' ''s'' ''k'' = ('''', False)" by blast
  from C8_removal[of ?I "''s''" "''j''"] h2
  have b: "RemoveOption ?I ''s'' ''j'' = Inr (False, ?I)" by blast
  from C8_removal[of ?I "''t''"] h3
  have c: "RemoveSection ?I ''t'' = Inr (False, ?I)" by blast
  from h1 h2 h3 a b c show ?thesis by blast
qed

section \<open>Properties of the codec\<close>

subsection \<open>What the two regular expressions match\<close>

declare search.simps [simp del]

lemma greedy_length: "r \<in> set (greedy c s) \<Longrightarrow> length r \<le> length s"
  by (induction s) (auto split: if_splits)

lemma search_Bol: "length s < n \<Longrightarrow> search n (Seq Bol re) s = None"
proof (induction s)
  case Nil
  then show ?case by (subst search.simps) simp
next
  case (Cons a s)
  then show ?case by (subst search.simps) simp
qed

lemma search_anchored:
  "n = length s \<Longrightarrow>
   search n (Seq Bol re) s =
     (case rmatch n re (s, []) of
        [] \<Rightarrow> None
      | m # _ \<Rightarrow> Some (take (length s - length (fst m)) s # snd m))"
proof (cases s)
  case Nil
  assume "n = length s"
  with Nil show ?thesis by (subst search.simps) (simp split: list.splits prod.splits)
next
  case (Cons a t)
  assume n: "n = length s"
  have "search (length (a # t)) (Seq Bol re) t = None" by (rule search_Bol) simp
  then show ?thesis unfolding n Cons
    by (subst search.simps) (simp split: list.splits prod.splits)
qed

lemma take_Suc_diff:
  "length r \<le> length xs \<Longrightarrow>
   take (Suc (length xs) - length r) (x # xs) = x # take (length xs - length r) xs"
  by (simp add: Suc_diff_le)

lemma greedy_shift:
  "map (\<lambda>r. f r (pre @ take (length (x # xs) - length r) (x # xs))) (greedy c xs) =
   map (\<lambda>r. f r ((pre @ [x]) @ take (length xs - length r) xs)) (greedy c xs)"
  by (rule map_cong[OF refl]) (simp add: greedy_length take_Suc_diff)

lemma star_then_eol:
  "concat (map (\<lambda>r. rmatch n Eol (r, gs @ [pre @ take (length s - length r) s]))
        (greedy AnyChar s)) =
   (if CHR 0x0A \<notin> set s then [([], gs @ [pre @ s])] else [])"
proof (induction s arbitrary: pre)
  case Nil
  show ?case by simp
next
  case (Cons x xs)
  let ?f = "\<lambda>r g. rmatch n Eol (r, gs @ [g])"
  note sh = greedy_shift[of ?f pre x xs AnyChar]
  show ?case
  proof (cases "x = CHR 0x0A")
    case True
    then show ?thesis by simp
  next
    case False
    then have "concat (map (\<lambda>r. ?f r (pre @ take (length (x # xs) - length r) (x # xs)))
                  (greedy AnyChar (x # xs))) =
          concat (map (\<lambda>r. ?f r (pre @ take (length (x # xs) - length r) (x # xs)))
                  (greedy AnyChar xs)) @ ?f (x # xs) (pre @ take 0 (x # xs))"
      by simp
    also have "\<dots> = concat (map (\<lambda>r. ?f r ((pre @ [x]) @ take (length xs - length r) xs))
                  (greedy AnyChar xs))"
      unfolding sh by simp
    also have "\<dots> = (if CHR 0x0A \<notin> set xs then [([], gs @ [(pre @ [x]) @ xs])] else [])"
      by (rule Cons.IH)
    finally show ?thesis using False by simp
  qed
qed

lemma close_then_eol:
  "rmatch n (Seq (Chr (Lit CHR '']'')) Eol) (r, g) = (if r = '']'' then [([], g)] else [])"
  by (cases r) auto

lemma star_then_close:
  "concat (map (\<lambda>r. rmatch n (Seq (Chr (Lit CHR '']'')) Eol)
                    (r, gs @ [pre @ take (length s - length r) s]))
        (greedy AnyChar s)) =
   (if s \<noteq> [] \<and> last s = CHR '']'' \<and> CHR 0x0A \<notin> set (butlast s)
    then [([], gs @ [pre @ butlast s])] else [])"
proof (induction s arbitrary: pre)
  case Nil
  show ?case by (simp add: close_then_eol)
next
  case (Cons x xs)
  let ?f = "\<lambda>r g. rmatch n (Seq (Chr (Lit CHR '']'')) Eol) (r, gs @ [g])"
  note sh = greedy_shift[of ?f pre x xs AnyChar]
  show ?case
  proof (cases "x = CHR 0x0A")
    case True
    then show ?thesis by (auto simp: close_then_eol)
  next
    case False
    then have "concat (map (\<lambda>r. ?f r (pre @ take (length (x # xs) - length r) (x # xs)))
                  (greedy AnyChar (x # xs))) =
          concat (map (\<lambda>r. ?f r (pre @ take (length (x # xs) - length r) (x # xs)))
                  (greedy AnyChar xs)) @ ?f (x # xs) (pre @ take 0 (x # xs))"
      by simp
    also have "\<dots> = concat (map (\<lambda>r. ?f r ((pre @ [x]) @ take (length xs - length r) xs))
                  (greedy AnyChar xs)) @ ?f (x # xs) pre"
      unfolding sh by simp
    also have "\<dots> = (if xs \<noteq> [] \<and> last xs = CHR '']'' \<and> CHR 0x0A \<notin> set (butlast xs)
                      then [([], gs @ [(pre @ [x]) @ butlast xs])] else []) @ ?f (x # xs) pre"
      by (simp only: Cons.IH)
    finally show ?thesis using False by (auto simp: close_then_eol)
  qed
qed

lemma sectionRegex_match:
  "FindStringSubmatch sectionRegex line =
     (if 2 \<le> length line \<and> hd line = CHR ''['' \<and> last line = CHR '']'' \<and>
         CHR 0x0A \<notin> set (butlast (tl line))
      then Some [line, butlast (tl line)] else None)"
proof (cases line)
  case Nil
  then show ?thesis
    by (simp add: FindStringSubmatch_def sectionRegex_def search_anchored)
next
  case (Cons x xs)
  have g: "rmatch n (Seq (Group (Star AnyChar)) (Seq (Chr (Lit CHR '']'')) Eol)) (xs, []) =
        (if xs \<noteq> [] \<and> last xs = CHR '']'' \<and> CHR 0x0A \<notin> set (butlast xs)
         then [([], [butlast xs])] else [])" for n
    using star_then_close[of n "[]" "[]" xs] by (simp add: comp_def)
  have r: "rmatch (length line) (Seq (Chr (Lit CHR ''['')) (Seq (Group (Star AnyChar))
             (Seq (Chr (Lit CHR '']'')) Eol))) (line, []) =
        (if x = CHR ''['' \<and> xs \<noteq> [] \<and> last xs = CHR '']'' \<and> CHR 0x0A \<notin> set (butlast xs)
         then [([], [butlast xs])] else [])"
    unfolding Cons rmatch.simps(5)[of _ "Chr (Lit CHR ''['')"] by (simp add: g del: rmatch.simps(5))
  show ?thesis
    unfolding FindStringSubmatch_def sectionRegex_def search_anchored[OF refl] r
    by (cases xs) (auto simp: Cons)
qed

lemma assign_tail:
  "rmatch n (Seq (Chr (Lit CHR ''='')) (Seq (Group (Star AnyChar)) Eol)) (r, g) =
     (case r of [] \<Rightarrow> []
      | c # t \<Rightarrow> if c = CHR ''='' \<and> CHR 0x0A \<notin> set t then [([], g @ [t])] else [])"
proof (cases r)
  case Nil
  then show ?thesis by simp
next
  case (Cons c t)
  have "rmatch n (Seq (Group (Star AnyChar)) Eol) (t, g) =
        (if CHR 0x0A \<notin> set t then [([], g @ [t])] else [])"
    using star_then_eol[of n g "[]" t] by (simp add: comp_def)
  then show ?thesis unfolding Cons rmatch.simps(5)[of _ "Chr (Lit CHR ''='')"]
    by (simp del: rmatch.simps(5))
qed

lemma dropWhile_Cons_in: "dropWhile P xs = y # ys \<Longrightarrow> \<exists>x\<in>set xs. \<not> P x"
  by (metis dropWhile_eq_Nil_conv list.distinct(1))

lemma list_case_branch:
  "(\<And>a t. f a t = g a t) \<Longrightarrow>
   (case l of [] \<Rightarrow> z | a # t \<Rightarrow> f a t) = (case l of [] \<Rightarrow> z | a # t \<Rightarrow> g a t)"
  by (cases l) auto

lemma plus_then_assign:
  "concat (map (\<lambda>r. rmatch n (Seq (Chr (Lit CHR ''='')) (Seq (Group (Star AnyChar)) Eol))
                    (r, gs @ [pre @ take (length s - length r) s]))
        (greedy (NotLit CHR ''='') s)) =
   (case dropWhile (\<lambda>c. c \<noteq> CHR ''='') s of
      [] \<Rightarrow> []
    | _ # t \<Rightarrow> if CHR 0x0A \<notin> set t
               then [([], gs @ [pre @ takeWhile (\<lambda>c. c \<noteq> CHR ''='') s, t])] else [])"
proof (induction s arbitrary: pre)
  case Nil
  show ?case by (simp add: assign_tail del: rmatch.simps(5))
next
  case (Cons x xs)
  let ?f = "\<lambda>r g. rmatch n (Seq (Chr (Lit CHR ''='')) (Seq (Group (Star AnyChar)) Eol))
                    (r, gs @ [g])"
  note sh = greedy_shift[of ?f pre x xs "NotLit CHR ''=''"]
  show ?case
  proof (cases "x = CHR ''=''")
    case True
    then show ?thesis by (simp add: assign_tail del: rmatch.simps(5))
  next
    case False
    then have "concat (map (\<lambda>r. ?f r (pre @ take (length (x # xs) - length r) (x # xs)))
                  (greedy (NotLit CHR ''='') (x # xs))) =
          concat (map (\<lambda>r. ?f r (pre @ take (length (x # xs) - length r) (x # xs)))
                  (greedy (NotLit CHR ''='') xs)) @ ?f (x # xs) (pre @ take 0 (x # xs))"
      by (simp del: rmatch.simps(5))
    also have "\<dots> = concat (map (\<lambda>r. ?f r ((pre @ [x]) @ take (length xs - length r) xs))
                  (greedy (NotLit CHR ''='') xs)) @ ?f (x # xs) pre"
      unfolding sh by (simp del: rmatch.simps(5))
    also have "\<dots> = (case dropWhile (\<lambda>c. c \<noteq> CHR ''='') xs of
      [] \<Rightarrow> []
    | _ # t \<Rightarrow> if CHR 0x0A \<notin> set t
               then [([], gs @ [(pre @ [x]) @ takeWhile (\<lambda>c. c \<noteq> CHR ''='') xs, t])] else [])
         @ ?f (x # xs) pre"
      by (simp only: Cons.IH)
    also have "\<dots> = (case dropWhile (\<lambda>c. c \<noteq> CHR ''='') (x # xs) of
      [] \<Rightarrow> []
    | _ # t \<Rightarrow> if CHR 0x0A \<notin> set t
               then [([], gs @ [pre @ takeWhile (\<lambda>c. c \<noteq> CHR ''='') (x # xs), t])] else [])"
      using False
      by (simp add: assign_tail del: rmatch.simps(5)) (rule list_case_branch, simp)
    finally show ?thesis .
  qed
qed

lemma assignRegex_match:
  "FindStringSubmatch assignRegex line =
     (if line \<noteq> [] \<and> hd line \<noteq> CHR ''='' \<and> dropWhile (\<lambda>c. c \<noteq> CHR ''='') line \<noteq> [] \<and>
         CHR 0x0A \<notin> set (tl (dropWhile (\<lambda>c. c \<noteq> CHR ''='') line))
      then Some [line, takeWhile (\<lambda>c. c \<noteq> CHR ''='') line,
                 tl (dropWhile (\<lambda>c. c \<noteq> CHR ''='') line)]
      else None)"
proof (cases line)
  case Nil
  then show ?thesis
    by (simp add: FindStringSubmatch_def assignRegex_def search_anchored)
next
  case (Cons x xs)
  let ?R = "Seq (Chr (Lit CHR ''='')) (Seq (Group (Star AnyChar)) Eol)"
  let ?n = "length (x # xs)"
  have r: "rmatch ?n (Seq (Group (Plus (NotLit CHR ''=''))) ?R) (x # xs, []) =
        (if x = CHR ''='' then []
         else (case dropWhile (\<lambda>c. c \<noteq> CHR ''='') xs of
                 [] \<Rightarrow> []
               | _ # t \<Rightarrow> if CHR 0x0A \<notin> set t
                     then [([], [x # takeWhile (\<lambda>c. c \<noteq> CHR ''='') xs, t])] else []))"
  proof (cases "x = CHR ''=''")
    case True
    then show ?thesis unfolding rmatch.simps(5)[of _ "Group (Plus (NotLit CHR ''=''))"]
      by (simp del: rmatch.simps(5))
  next
    case False
    have "rmatch ?n (Seq (Group (Plus (NotLit CHR ''=''))) ?R) (x # xs, []) =
       concat (map (\<lambda>r. rmatch ?n ?R
                    (r, [] @ [[] @ take (length (x # xs) - length r) (x # xs)]))
        (greedy (NotLit CHR ''='') xs))"
      unfolding rmatch.simps(5)[of _ "Group (Plus (NotLit CHR ''=''))"]
      using False by (simp add: comp_def del: rmatch.simps(5))
    also have "\<dots> = concat (map (\<lambda>r. rmatch ?n ?R
                    (r, [] @ [([] @ [x]) @ take (length xs - length r) xs]))
        (greedy (NotLit CHR ''='') xs))"
      by (rule arg_cong[where f = concat])
         (rule greedy_shift[of "\<lambda>r g. rmatch ?n ?R (r, [] @ [g])" "[]" x xs])
    also note plus_then_assign[of ?n "[]" "[] @ [x]" xs]
    also have "(case dropWhile (\<lambda>c. c \<noteq> CHR ''='') xs of
      [] \<Rightarrow> []
    | _ # t \<Rightarrow> if CHR 0x0A \<notin> set t
               then [([], [] @ [([] @ [x]) @ takeWhile (\<lambda>c. c \<noteq> CHR ''='') xs, t])] else []) =
      (if x = CHR ''='' then []
         else (case dropWhile (\<lambda>c. c \<noteq> CHR ''='') xs of
                 [] \<Rightarrow> []
               | _ # t \<Rightarrow> if CHR 0x0A \<notin> set t
                     then [([], [x # takeWhile (\<lambda>c. c \<noteq> CHR ''='') xs, t])] else []))"
      using False by simp (rule list_case_branch, simp)
    finally show ?thesis .
  qed
  show ?thesis
    unfolding FindStringSubmatch_def assignRegex_def Cons search_anchored[OF refl] r
    by (auto split: list.splits dest: dropWhile_Cons_in)
qed

subsection \<open>The loop of parse\<close>

lemma parse_Cons:
  "parse ((line0, err) # reader) section lineNum ini =
     (let line = TrimSpace line0 in
      if invalid_line line then Some (ini, Some (ErrSyntax (Suc lineNum) line))
      else if err = Some EOF then Some (snd (line_step (section, ini) line), None)
      else parse reader (fst (line_step (section, ini) line)) (Suc lineNum)
             (snd (line_step (section, ini) line)))"
  by (auto simp: Let_def invalid_line_def line_step_def blank_or_comment_def is_assignment_def
      is_header_def header_name_def split: option.splits)

declare parse.simps(2) [simp del]

lemma line_step_blank [simp]: "line_step st [] = st"
  by (simp add: line_step_def blank_or_comment_def)

lemma TrimSpace_Nil [simp]: "TrimSpace [] = []"
  by (simp add: TrimSpace_def TrimLeft_def TrimRight_def space_encodings_def)

lemma not_invalid_Nil [simp]: "\<not> invalid_line []"
  by (simp add: invalid_line_def blank_or_comment_def)

lemma parse_script:
  assumes "\<forall>x\<in>set pre. snd x \<noteq> Some EOF"
  shows "parse (pre @ [(r, Some EOF)]) sec n ini =
     Some (snd (foldl line_step (sec, ini)
                  (take (first_invalid (map (\<lambda>r. TrimSpace (fst r)) (pre @ [(r, Some EOF)])))
                        (map (\<lambda>r. TrimSpace (fst r)) (pre @ [(r, Some EOF)])))),
           if first_invalid (map (\<lambda>r. TrimSpace (fst r)) (pre @ [(r, Some EOF)]))
                < length (pre @ [(r, Some EOF)])
           then Some (ErrSyntax
                  (n + first_invalid (map (\<lambda>r. TrimSpace (fst r)) (pre @ [(r, Some EOF)])) + 1)
                  (map (\<lambda>r. TrimSpace (fst r)) (pre @ [(r, Some EOF)]) !
                     first_invalid (map (\<lambda>r. TrimSpace (fst r)) (pre @ [(r, Some EOF)]))))
           else None)"
  using assms
proof (induction pre arbitrary: sec n ini)
  case Nil
  show ?case by (simp add: parse_Cons first_invalid_def Let_def)
next
  case (Cons x pre)
  obtain l e where x: "x = (l, e)" by (cases x)
  with Cons.prems have e: "e \<noteq> Some EOF" and p: "\<forall>x\<in>set pre. snd x \<noteq> Some EOF" by auto
  show ?case
  proof (cases "invalid_line (TrimSpace l)")
    case True
    then show ?thesis by (simp add: x parse_Cons first_invalid_def Let_def)
  next
    case False
    obtain sec1 ini1 where st: "line_step (sec, ini) (TrimSpace l) = (sec1, ini1)"
      by (cases "line_step (sec, ini) (TrimSpace l)")
    have fi: "first_invalid (map (\<lambda>r. TrimSpace (fst r)) ((x # pre) @ [(r, Some EOF)])) =
      Suc (first_invalid (map (\<lambda>r. TrimSpace (fst r)) (pre @ [(r, Some EOF)])))"
      using False by (simp add: first_invalid_def x)
    have "parse ((x # pre) @ [(r, Some EOF)]) sec n ini =
          parse (pre @ [(r, Some EOF)]) sec1 (Suc n) ini1"
      using False e st by (simp add: x parse_Cons Let_def)
    also note Cons.IH[OF p, of sec1 "Suc n" ini1]
    finally show ?thesis unfolding fi by (simp add: x st)
  qed
qed

lemma split_reads_shape:
  "\<exists>pre r. split_reads cur inp = pre @ [(r, Some EOF)] \<and> (\<forall>x\<in>set pre. snd x = None)"
proof (induction inp arbitrary: cur)
  case Nil
  show ?case by simp
next
  case (Cons c cs)
  show ?case
  proof (cases "c = CHR 0x0A")
    case True
    from Cons.IH[of "[]"] obtain pre r where
      "split_reads [] cs = pre @ [(r, Some EOF)]" "\<forall>x\<in>set pre. snd x = None" by blast
    then have "split_reads cur (c # cs) = ((cur @ [c], None) # pre) @ [(r, Some EOF)] \<and>
               (\<forall>x\<in>set ((cur @ [c], None) # pre). snd x = None)"
      using True by simp
    then show ?thesis by blast
  next
    case False
    with Cons.IH[of "cur @ [c]"] show ?thesis by simp
  qed
qed

lemma first_invalid_less: "first_invalid ls < length ls \<longleftrightarrow> (\<exists>l\<in>set ls. invalid_line l)"
  unfolding first_invalid_def by (induction ls) auto

lemma first_invalid_nth:
  "first_invalid ls < length ls \<Longrightarrow> invalid_line (ls ! first_invalid ls)"
  unfolding first_invalid_def by (induction ls) auto

lemma first_invalid_before: "j < first_invalid ls \<Longrightarrow> \<not> invalid_line (ls ! j)"
  unfolding first_invalid_def
proof (induction ls arbitrary: j)
  case Nil
  then show ?case by simp
next
  case (Cons a ls)
  then show ?case by (cases j) (auto split: if_splits)
qed

lemma first_invalid_all: "(\<forall>l\<in>set ls. \<not> invalid_line l) \<Longrightarrow> first_invalid ls = length ls"
  unfolding first_invalid_def by (induction ls) auto

lemma Read_script:
  assumes "\<forall>x\<in>set pre. snd x \<noteq> Some EOF"
    and "ls = map (\<lambda>r. TrimSpace (fst r)) (pre @ [(r, Some EOF)])"
  shows "Read (pre @ [(r, Some EOF)]) ord =
     Some (snd (foldl line_step ([], NewINI ord) (take (first_invalid ls) ls)),
           if first_invalid ls < length ls
           then Some (ErrSyntax (first_invalid ls + 1) (ls ! first_invalid ls)) else None)"
  unfolding Read_def parse_script[OF assms(1)] assms(2) by simp

lemma Read_string:
  "Read (string_reader inp) ord =
     Some (snd (foldl line_step ([], NewINI ord)
                 (take (first_invalid (trimmed_lines inp)) (trimmed_lines inp))),
           if first_invalid (trimmed_lines inp) < length (trimmed_lines inp)
           then Some (ErrSyntax (first_invalid (trimmed_lines inp) + 1)
                        (trimmed_lines inp ! first_invalid (trimmed_lines inp)))
           else None)"
proof -
  from split_reads_shape[of "[]" inp] obtain pre r where
    s: "string_reader inp = pre @ [(r, Some EOF)]" "\<forall>x\<in>set pre. snd x = None"
    by (auto simp: string_reader_def)
  then have p: "\<forall>x\<in>set pre. snd x \<noteq> Some EOF" by simp
  have l: "trimmed_lines inp = map (\<lambda>r. TrimSpace (fst r)) (pre @ [(r, Some EOF)])"
    by (simp add: trimmed_lines_def s)
  show ?thesis unfolding s(1) by (rule Read_script[OF p l])
qed

lemma Read_string_truncated:
  assumes "first_invalid (trimmed_lines inp) < length (trimmed_lines inp)"
  shows "Read (take (first_invalid (trimmed_lines inp)) (string_reader inp) @ [([], Some EOF)]) ord =
     Some (snd (foldl line_step ([], NewINI ord)
                 (take (first_invalid (trimmed_lines inp)) (trimmed_lines inp))), None)"
proof -
  let ?i = "first_invalid (trimmed_lines inp)"
  from split_reads_shape[of "[]" inp] obtain pre r where
    s: "string_reader inp = pre @ [(r, Some EOF)]" "\<forall>x\<in>set pre. snd x = None"
    by (auto simp: string_reader_def)
  have l: "trimmed_lines inp = map (\<lambda>r. TrimSpace (fst r)) (pre @ [(r, Some EOF)])"
    by (simp add: trimmed_lines_def s)
  from assms have i: "?i \<le> length pre" by (simp add: l)
  then have t: "take ?i (string_reader inp) = take ?i pre" by (simp add: s)
  have p: "\<forall>x\<in>set (take ?i pre). snd x \<noteq> Some EOF"
    using s(2) by (metis in_set_takeD option.distinct(1))
  define ls where "ls = map (\<lambda>r. TrimSpace (fst r)) (take ?i pre @ [([], Some EOF)])"
  have ls: "ls = take ?i (trimmed_lines inp) @ [[]]"
    using i by (simp add: ls_def l take_map)
  have "\<forall>l\<in>set ls. \<not> invalid_line l"
  proof
    fix x assume "x \<in> set ls"
    then consider "x = []" | "x \<in> set (take ?i (trimmed_lines inp))" by (auto simp: ls)
    then show "\<not> invalid_line x"
    proof cases
      case 1 then show ?thesis by simp
    next
      case 2
      then obtain j where "j < ?i" "x = trimmed_lines inp ! j"
        by (auto simp: in_set_conv_nth)
      then show ?thesis using first_invalid_before[of j "trimmed_lines inp"] by simp
    qed
  qed
  then have f: "first_invalid ls = length ls" by (rule first_invalid_all)
  have len: "length ls = Suc ?i" using assms by (simp add: ls)
  have tk: "take (length ls) ls = ls" by simp
  show ?thesis unfolding t Read_script[OF p ls_def] f tk by (simp add: ls)
qed

lemmas codec_eval = Read_def string_reader_def TrimSpace_def TrimLeft_def TrimRight_def
  space_encodings_def FindStringSubmatch_def search.simps sectionRegex_def assignRegex_def
  parse.simps(2)
  trimmed_lines_def invalid_line_def blank_or_comment_def first_invalid_def is_assignment_def
  is_header_def header_name_def

text \<open>
  Claim C2. \<open>Read\<close> of a text returns an error exactly when one of its trimmed lines is
  invalid: neither blank, nor a comment, nor matched by \<open>assignRegex\<close> or \<open>sectionRegex\<close>.
  The error is \<open>ErrSyntax\<close> with the number of the first invalid line, counted from 1, and
  the trimmed line; the document returned is the one that parsing only the lines before it
  gives, so nothing after that line is read. The single line \<open>not valid ini !!\<close> fails with
  line 1 and that text.
\<close>

theorem C2_syntax_error:
  "(\<exists>ini. Read (string_reader inp) ord =
       Some (ini, if (\<exists>l\<in>set (trimmed_lines inp). invalid_line l)
                  then Some (ErrSyntax (first_invalid (trimmed_lines inp) + 1)
                               (trimmed_lines inp ! first_invalid (trimmed_lines inp)))
                  else None) \<and>
     ((\<exists>l\<in>set (trimmed_lines inp). invalid_line l) \<longrightarrow>
        first_invalid (trimmed_lines inp) < length (trimmed_lines inp) \<and>
        invalid_line (trimmed_lines inp ! first_invalid (trimmed_lines inp)) \<and>
        (\<forall>j < first_invalid (trimmed_lines inp). \<not> invalid_line (trimmed_lines inp ! j)) \<and>
        Read (take (first_invalid (trimmed_lines inp)) (string_reader inp) @ [([], Some EOF)]) ord =
          Some (ini, None))) \<and>
   Read (string_reader ''not valid ini !!'') ord =
     Some (NewINI ord, Some (ErrSyntax 1 ''not valid ini !!''))"
proof
  let ?ls = "trimmed_lines inp"
  let ?ini = "snd (foldl line_step ([], NewINI ord) (take (first_invalid ?ls) ?ls))"
  have a: "Read (string_reader inp) ord =
       Some (?ini, if (\<exists>l\<in>set ?ls. invalid_line l)
                  then Some (ErrSyntax (first_invalid ?ls + 1) (?ls ! first_invalid ?ls))
                  else None)"
    unfolding Read_string first_invalid_less[symmetric] ..
  have b: "first_invalid ?ls < length ?ls \<and> invalid_line (?ls ! first_invalid ?ls) \<and>
        (\<forall>j < first_invalid ?ls. \<not> invalid_line (?ls ! j)) \<and>
        Read (take (first_invalid ?ls) (string_reader inp) @ [([], Some EOF)]) ord = Some (?ini, None)"
    if "\<exists>l\<in>set ?ls. invalid_line l"
  proof -
    from that have l: "first_invalid ?ls < length ?ls" by (simp add: first_invalid_less)
    show ?thesis
      using l first_invalid_nth[OF l] first_invalid_before[of _ ?ls] Read_string_truncated[OF l]
      by blast
  qed
  from a b show "\<exists>ini. Read (string_reader inp) ord =
       Some (ini, if (\<exists>l\<in>set ?ls. invalid_line l)
                  then Some (ErrSyntax (first_invalid ?ls + 1) (?ls ! first_invalid ?ls))
                  else None) \<and>
     ((\<exists>l\<in>set ?ls. invalid_line l) \<longrightarrow>
        first_invalid ?ls < length ?ls \<and> invalid_line (?ls ! first_invalid ?ls) \<and>
        (\<forall>j < first_invalid ?ls. \<not> invalid_line (?ls ! j)) \<and>
        Read (take (first_invalid ?ls) (string_reader inp) @ [([], Some EOF)]) ord = Some (ini, None))"
    by blast
next
  show "Read (string_reader ''not valid ini !!'') ord =
     Some (NewINI ord, Some (ErrSyntax 1 ''not valid ini !!''))"
    by (simp add: codec_eval)
qed

theorem C2_witness:
  "\<exists>ini. Read (string_reader ''[a]\<newline>k = v\<newline>  bad line \<newline>x = y\<newline>'') True =
           Some (ini, Some (ErrSyntax 3 ''bad line'')) \<and>
         Read [(''[a]\<newline>'', None), (''k = v\<newline>'', None), ([], Some EOF)] True = Some (ini, None)"
proof -
  let ?inp = "''[a]\<newline>k = v\<newline>  bad line \<newline>x = y\<newline>''"
  have sr: "string_reader ?inp = [(''[a]\<newline>'', None), (''k = v\<newline>'', None),
      (''  bad line \<newline>'', None), (''x = y\<newline>'', None), ([], Some EOF)]"
    by code_simp
  have tl: "trimmed_lines ?inp = [''[a]'', ''k = v'', ''bad line'', ''x = y'', []]"
    by code_simp
  have i3: "invalid_line ''bad line''" by code_simp
  have fi: "first_invalid (trimmed_lines ?inp) = 2" by code_simp
  have ex: "\<exists>l\<in>set (trimmed_lines ?inp). invalid_line l" unfolding tl using i3 by simp
  from C2_syntax_error[of ?inp True] obtain ini where
    A: "Read (string_reader ?inp) True =
       Some (ini, if (\<exists>l\<in>set (trimmed_lines ?inp). invalid_line l)
                  then Some (ErrSyntax (first_invalid (trimmed_lines ?inp) + 1)
                               (trimmed_lines ?inp ! first_invalid (trimmed_lines ?inp)))
                  else None)" and
    B: "(\<exists>l\<in>set (trimmed_lines ?inp). invalid_line l) \<longrightarrow>
        Read (take (first_invalid (trimmed_lines ?inp)) (string_reader ?inp) @ [([], Some EOF)]) True =
          Some (ini, None)"
    by blast
  from A ex have A': "Read (string_reader ?inp) True =
       Some (ini, Some (ErrSyntax (first_invalid (trimmed_lines ?inp) + 1)
                               (trimmed_lines ?inp ! first_invalid (trimmed_lines ?inp))))"
    by simp
  from B ex have B': "Read (take (first_invalid (trimmed_lines ?inp)) (string_reader ?inp) @
       [([], Some EOF)]) True = Some (ini, None)" by blast
  have "Read (string_reader ?inp) True = Some (ini, Some (ErrSyntax 3 ''bad line''))"
    using A' unfolding fi unfolding tl by simp
  moreover have "Read [(''[a]\<newline>'', None), (''k = v\<newline>'', None), ([], Some EOF)] True =
      Some (ini, None)"
    using B' unfolding fi unfolding sr by simp
  ultimately show ?thesis by blast
qed

lemma blank_not_invalid: "blank_or_comment l \<Longrightarrow> \<not> invalid_line l"
  by (simp add: invalid_line_def)

lemma line_step_skip: "blank_or_comment l \<Longrightarrow> line_step st l = st"
  by (simp add: line_step_def)

lemma foldl_line_step_skip:
  "\<forall>l\<in>set ls. blank_or_comment l \<Longrightarrow> foldl line_step st ls = st"
  by (induction ls arbitrary: st) (simp_all add: line_step_skip)

text \<open>What the lines read so far say about the current section and about the section \<open>""\<close>.\<close>

lemma unnamed_section_invariant:
  assumes "foldl line_step ([], NewINI ord) ps = (sec, ini)"
  shows "((\<forall>h\<in>set ps. \<not> is_header h) \<and> sec = [] \<or>
          (\<exists>h\<in>set ps. is_header h \<and> header_name h = sec)) \<and>
         (HasSection ini [] \<longrightarrow>
            (\<exists>a l b. ps = a @ l # b \<and> is_assignment l \<and> (\<forall>h\<in>set a. \<not> is_header h)) \<or>
            (\<exists>h\<in>set ps. is_header h \<and> header_name h = []))"
  using assms
proof (induction ps arbitrary: sec ini rule: rev_induct)
  case Nil
  then show ?case by (auto simp: HasSection_def NewINI_def)
next
  case (snoc l ps)
  obtain sec0 ini0 where st: "foldl line_step ([], NewINI ord) ps = (sec0, ini0)"
    by (cases "foldl line_step ([], NewINI ord) ps")
  from snoc.IH[OF st] have
    J1: "(\<forall>h\<in>set ps. \<not> is_header h) \<and> sec0 = [] \<or> (\<exists>h\<in>set ps. is_header h \<and> header_name h = sec0)" and
    J2: "HasSection ini0 [] \<longrightarrow>
            (\<exists>a l b. ps = a @ l # b \<and> is_assignment l \<and> (\<forall>h\<in>set a. \<not> is_header h)) \<or>
            (\<exists>h\<in>set ps. is_header h \<and> header_name h = [])" by blast+
  from snoc.prems st have step: "line_step (sec0, ini0) l = (sec, ini)" by simp
  have mono: "(\<exists>a l' b. ps = a @ l' # b \<and> is_assignment l' \<and> (\<forall>h\<in>set a. \<not> is_header h)) \<Longrightarrow>
     (\<exists>a l' b. ps @ [l] = a @ l' # b \<and> is_assignment l' \<and> (\<forall>h\<in>set a. \<not> is_header h))"
  proof -
    assume "\<exists>a l' b. ps = a @ l' # b \<and> is_assignment l' \<and> (\<forall>h\<in>set a. \<not> is_header h)"
    then obtain a l' b where "ps = a @ l' # b" "is_assignment l'" "\<forall>h\<in>set a. \<not> is_header h"
      by blast
    then have "ps @ [l] = a @ l' # (b @ [l]) \<and> is_assignment l' \<and> (\<forall>h\<in>set a. \<not> is_header h)"
      by simp
    then show ?thesis by blast
  qed
  consider (skip) "\<not> is_assignment l" "\<not> is_header l" "(sec, ini) = (sec0, ini0)"
    | (assign) k v where "is_assignment l" "\<not> is_header l" "sec = sec0"
        "ini = snd (AddOption ini0 sec0 k v)"
    | (header) "is_header l" "sec = header_name l" "ini = snd (AddSection ini0 (header_name l))"
    using step
    by (auto simp: line_step_def is_assignment_def is_header_def Let_def split: if_splits)
  then show ?case
  proof cases
    case skip
    with J1 J2 mono show ?thesis by auto
  next
    case assign
    have hs: "HasSection ini [] \<longleftrightarrow> sec0 = [] \<or> HasSection ini0 []"
      unfolding assign(4) HasSection_AddOption by auto
    have "(\<exists>a l' b. ps @ [l] = a @ l' # b \<and> is_assignment l' \<and> (\<forall>h\<in>set a. \<not> is_header h)) \<or>
            (\<exists>h\<in>set (ps @ [l]). is_header h \<and> header_name h = [])" if "HasSection ini []"
    proof (cases "HasSection ini0 []")
      case True
      with J2 mono show ?thesis by auto
    next
      case False
      with that hs have s0: "sec0 = []" by simp
      from J1 show ?thesis
      proof
        assume "(\<forall>h\<in>set ps. \<not> is_header h) \<and> sec0 = []"
        then have "ps @ [l] = ps @ l # [] \<and> is_assignment l \<and> (\<forall>h\<in>set ps. \<not> is_header h)"
          using assign(1) by simp
        then show ?thesis by blast
      next
        assume "\<exists>h\<in>set ps. is_header h \<and> header_name h = sec0"
        with s0 show ?thesis by auto
      qed
    qed
    moreover have "(\<forall>h\<in>set (ps @ [l]). \<not> is_header h) \<and> sec = [] \<or>
          (\<exists>h\<in>set (ps @ [l]). is_header h \<and> header_name h = sec)"
      using J1 assign(2,3) by auto
    ultimately show ?thesis by blast
  next
    case header
    have hs: "HasSection ini [] \<longleftrightarrow> header_name l = [] \<or> HasSection ini0 []"
      unfolding header(3) by (auto simp: HasSection_def sections_AddSection)
    have "(\<exists>a l' b. ps @ [l] = a @ l' # b \<and> is_assignment l' \<and> (\<forall>h\<in>set a. \<not> is_header h)) \<or>
            (\<exists>h\<in>set (ps @ [l]). is_header h \<and> header_name h = [])" if "HasSection ini []"
    proof (cases "HasSection ini0 []")
      case True
      with J2 mono show ?thesis by auto
    next
      case False
      with that hs header(1) show ?thesis by auto
    qed
    moreover have "\<exists>h\<in>set (ps @ [l]). is_header h \<and> header_name h = sec"
      using header(1,2) by auto
    ultimately show ?thesis by blast
  qed
qed

lemma Read_string_doc:
  "Read (string_reader inp) ord = Some (ini, err) \<Longrightarrow>
   \<exists>sec. foldl line_step ([], NewINI ord)
           (take (first_invalid (trimmed_lines inp)) (trimmed_lines inp)) = (sec, ini)"
  unfolding Read_string by (auto simp: prod_eq_iff)

text \<open>
  Claim C10. When every line of the text is blank or a comment, and so for the empty text,
  \<open>Read\<close> returns no error and the fresh document, which has no section. When the document
  that \<open>Read\<close> returns has the section \<open>""\<close>, then some line is an assignment with no
  section header before it, or some header names the section \<open>""\<close> itself.
\<close>

theorem C10_blank_and_comment_only:
  "((\<forall>l\<in>set (trimmed_lines inp). blank_or_comment l) \<longrightarrow>
      Read (string_reader inp) ord = Some (NewINI ord, None)) \<and>
   Read (string_reader []) ord = Some (NewINI ord, None) \<and>
   sections (NewINI ord) = Map.empty \<and> sectionNames (NewINI ord) = [] \<and>
   (Read (string_reader inp) ord = Some (ini, err) \<and> HasSection ini [] \<longrightarrow>
      (\<exists>i<length (trimmed_lines inp). is_assignment (trimmed_lines inp ! i) \<and>
          (\<forall>j<i. \<not> is_header (trimmed_lines inp ! j))) \<or>
      (\<exists>i<length (trimmed_lines inp). is_header (trimmed_lines inp ! i) \<and>
          header_name (trimmed_lines inp ! i) = []))"
proof (intro conjI impI)
  let ?ls = "trimmed_lines inp"
  assume b: "\<forall>l\<in>set ?ls. blank_or_comment l"
  then have "\<forall>l\<in>set ?ls. \<not> invalid_line l" by (simp add: blank_not_invalid)
  then have f: "first_invalid ?ls = length ?ls" by (rule first_invalid_all)
  show "Read (string_reader inp) ord = Some (NewINI ord, None)"
    unfolding Read_string f by (simp add: foldl_line_step_skip[OF b])
next
  show "Read (string_reader []) ord = Some (NewINI ord, None)"
    by (simp add: Read_def string_reader_def parse_Cons)
next
  show "sections (NewINI ord) = Map.empty" "sectionNames (NewINI ord) = []"
    by (simp_all add: NewINI_def)
next
  let ?ls = "trimmed_lines inp"
  let ?ps = "take (first_invalid ?ls) ?ls"
  assume a: "Read (string_reader inp) ord = Some (ini, err) \<and> HasSection ini []"
  then obtain sec where st: "foldl line_step ([], NewINI ord) ?ps = (sec, ini)"
    using Read_string_doc by blast
  have ls: "?ls = ?ps @ drop (first_invalid ?ls) ?ls" by simp
  from unnamed_section_invariant[OF st] a consider
    (implicit) a l b where "?ps = a @ l # b" "is_assignment l" "\<forall>h\<in>set a. \<not> is_header h"
    | (explicit) h where "h \<in> set ?ps" "is_header h" "header_name h = []"
    by blast
  then show "(\<exists>i<length ?ls. is_assignment (?ls ! i) \<and> (\<forall>j<i. \<not> is_header (?ls ! j))) \<or>
      (\<exists>i<length ?ls. is_header (?ls ! i) \<and> header_name (?ls ! i) = [])"
  proof cases
    case implicit
    with ls have d: "?ls = a @ l # (b @ drop (first_invalid ?ls) ?ls)" by simp
    have "length a < length ?ls" by (subst d) simp
    moreover have "?ls ! length a = l" by (subst d) simp
    moreover have "\<forall>j<length a. \<not> is_header (?ls ! j)"
    proof (intro allI impI)
      fix j assume j: "j < length a"
      have "?ls ! j = a ! j" by (subst d) (simp add: nth_append j)
      with implicit(3) j show "\<not> is_header (?ls ! j)" by simp
    qed
    ultimately show ?thesis using implicit(2) by blast
  next
    case explicit
    from explicit(1) have "h \<in> set ?ls" by (rule in_set_takeD)
    then obtain i where "i < length ?ls" "?ls ! i = h" by (auto simp: in_set_conv_nth)
    with explicit(2,3) show ?thesis by blast
  qed
qed

theorem C10_witness:
  "trimmed_lines ''; c\<newline>\<newline>  # x\<newline>'' = [''; c'', [], ''# x'', []] \<and>
   blank_or_comment ''; c'' \<and> blank_or_comment [] \<and> blank_or_comment ''# x'' \<and>
   Read (string_reader ''; c\<newline>\<newline>  # x\<newline>'') True = Some (NewINI True, None) \<and>
   Read (string_reader ''k=v'') True =
     Some (\<lparr>INI.ordered = True, sectionNames = [[]],
            sections = [[] \<mapsto> \<lparr>iniOptions.ordered = True, optionNames = [''k''],
                                  options = [''k'' \<mapsto> ''v'']\<rparr>]\<rparr>, None) \<and>
   HasSection \<lparr>INI.ordered = True, sectionNames = [[]],
            sections = [[] \<mapsto> \<lparr>iniOptions.ordered = True, optionNames = [''k''],
                                  options = [''k'' \<mapsto> ''v'']\<rparr>]\<rparr> [] \<and>
   is_assignment (trimmed_lines ''k=v'' ! 0)"
proof -
  let ?I = "\<lparr>INI.ordered = True, sectionNames = [[]],
            sections = [[] \<mapsto> \<lparr>iniOptions.ordered = True, optionNames = [''k''],
                                  options = [''k'' \<mapsto> ''v'']\<rparr>]\<rparr>"
  have tl: "trimmed_lines ''; c\<newline>\<newline>  # x\<newline>'' = [''; c'', [], ''# x'', []]" by code_simp
  have b: "\<forall>l\<in>set (trimmed_lines ''; c\<newline>\<newline>  # x\<newline>''). blank_or_comment l"
    unfolding tl by (simp add: blank_or_comment_def)
  have tk: "trimmed_lines ''k=v'' = [''k=v'']" by code_simp
  have ia: "is_assignment ''k=v''" by code_simp
  have ni: "\<not> invalid_line ''k=v''" by code_simp
  have g: "the (FindStringSubmatch assignRegex ''k=v'') = [''k=v'', ''k'', ''v'']" by code_simp
  have t: "TrimSpace ''k'' = ''k''" "TrimSpace ''v'' = ''v''" by code_simp+
  have r: "Read (string_reader ''k=v'') True = Some (?I, None)"
    unfolding Read_string tk first_invalid_all[of "[''k=v'']", simplified, OF ni]
    by (simp add: line_step_def ia g t blank_or_comment_def INI_eval)
  have h: "HasSection ?I []" by (simp add: HasSection_def)
  from C10_blank_and_comment_only[of "''; c\<newline>\<newline>  # x\<newline>''" True] b
  have r1: "Read (string_reader ''; c\<newline>\<newline>  # x\<newline>'') True = Some (NewINI True, None)"
    by blast
  from C10_blank_and_comment_only[of "''k=v''" True ?I None] r h
  have "(\<exists>i<length (trimmed_lines ''k=v''). is_assignment (trimmed_lines ''k=v'' ! i) \<and>
          (\<forall>j<i. \<not> is_header (trimmed_lines ''k=v'' ! j))) \<or>
      (\<exists>i<length (trimmed_lines ''k=v''). is_header (trimmed_lines ''k=v'' ! i) \<and>
          header_name (trimmed_lines ''k=v'' ! i) = [])" by blast
  then have "is_assignment (trimmed_lines ''k=v'' ! 0)"
    unfolding tk using ia by simp
  moreover have "blank_or_comment ''; c''" "blank_or_comment []" "blank_or_comment ''# x''"
    by (simp_all add: blank_or_comment_def)
  ultimately show ?thesis using tl r1 r h by blast
qed

text \<open>
  Claim C9. \<open>sectionRegex\<close> matches a trimmed line exactly when it starts with \<open>[\<close> and
  ends with \<open>]\<close>, and captures all that lies between the two, up to the last \<open>]\<close>.
  So \<open>[a] extra\<close> matches neither pattern and \<open>Read\<close> rejects it with a syntax error for
  line 1, while \<open>[a]junk]\<close> is a section header and \<open>Read\<close> adds the section \<open>a]junk\<close>.
\<close>

theorem C9_greedy_section_header:
  "FindStringSubmatch sectionRegex line =
     (if 2 \<le> length line \<and> hd line = CHR ''['' \<and> last line = CHR '']'' \<and>
         CHR 0x0A \<notin> set (butlast (tl line))
      then Some [line, butlast (tl line)] else None) \<and>
   TrimSpace ''[a] extra'' = ''[a] extra'' \<and>
   FindStringSubmatch assignRegex ''[a] extra'' = None \<and>
   FindStringSubmatch sectionRegex ''[a] extra'' = None \<and>
   Read (string_reader ''[a] extra'') ord = Some (NewINI ord, Some (ErrSyntax 1 ''[a] extra'')) \<and>
   TrimSpace ''[a]junk]'' = ''[a]junk]'' \<and>
   FindStringSubmatch assignRegex ''[a]junk]'' = None \<and>
   FindStringSubmatch sectionRegex ''[a]junk]'' = Some [''[a]junk]'', ''a]junk''] \<and>
   Read (string_reader ''[a]junk]'') ord = Some (snd (AddSection (NewINI ord) ''a]junk''), None) \<and>
   HasSection (snd (AddSection (NewINI ord) ''a]junk'')) ''a]junk''"
proof -
  have t1: "TrimSpace ''[a] extra'' = ''[a] extra''" by code_simp
  have a1: "FindStringSubmatch assignRegex ''[a] extra'' = None" by code_simp
  have s1: "FindStringSubmatch sectionRegex ''[a] extra'' = None" by code_simp
  have t2: "TrimSpace ''[a]junk]'' = ''[a]junk]''" by code_simp
  have a2: "FindStringSubmatch assignRegex ''[a]junk]'' = None" by code_simp
  have s2: "FindStringSubmatch sectionRegex ''[a]junk]'' = Some [''[a]junk]'', ''a]junk'']"
    by code_simp
  have t3: "TrimSpace ''a]junk'' = ''a]junk''" by code_simp
  have r1: "Read (string_reader ''[a] extra'') ord =
      Some (NewINI ord, Some (ErrSyntax 1 ''[a] extra''))"
    by (simp add: Read_def string_reader_def parse.simps(2) t1 a1 s1)
  have r2: "Read (string_reader ''[a]junk]'') ord =
      Some (snd (AddSection (NewINI ord) ''a]junk''), None)"
    by (simp add: Read_def string_reader_def parse.simps(2) t2 a2 s2 t3)
  have h: "HasSection (snd (AddSection (NewINI ord) ''a]junk'')) ''a]junk''"
    by (simp add: HasSection_def sections_AddSection)
  show ?thesis using sectionRegex_match[of line] t1 a1 s1 r1 t2 a2 s2 r2 h by blast
qed

theorem C9_witness:
  "FindStringSubmatch sectionRegex ''[x]y] z]'' = Some [''[x]y] z]'', ''x]y] z''] \<and>
   FindStringSubmatch sectionRegex ''[x]y] z'' = None"
  using C9_greedy_section_header[of "''[x]y] z]''" True]
    C9_greedy_section_header[of "''[x]y] z''" True]
  by simp

text \<open>
  Claim C3, which the source does not meet. A read error other than \<open>io.EOF\<close> is dropped:
  \<open>parse\<close> handles the bytes that came with it as a line and reads on, so a reader that
  fails once yields a document and no error, and a reader that keeps failing is read without
  end (after any number \<open>n\<close> of failed reads the loop still runs). \<open>Write\<close> drops the result
  of every \<open>Fprintln\<close>: on a broken writer it still makes all its calls, here three, and
  returns no error.
\<close>

theorem C3_io_errors_dropped:
  "Read [(''k = v'', Some (ErrIO ''read failed'')), ([], Some EOF)] ord =
     Some (snd (AddOption (NewINI ord) [] ''k'' ''v''), None) \<and>
   Read (replicate n ([], Some (ErrIO ''read failed''))) ord = None \<and>
   Write (snd (AddOption (NewINI True) ''s'' ''k'' ''v'')) (buffer\<lparr>broken := True\<rparr>) rng rngs =
     (\<lparr>written = [], broken = True, calls = 3\<rparr>, None)"
proof -
  have t: "TrimSpace ''k = v'' = ''k = v''" "TrimSpace ''k '' = ''k''" "TrimSpace '' v'' = ''v''"
    by code_simp+
  have a: "FindStringSubmatch assignRegex ''k = v'' = Some [''k = v'', ''k '', '' v'']"
    by code_simp
  have r1: "Read [(''k = v'', Some (ErrIO ''read failed'')), ([], Some EOF)] ord =
     Some (snd (AddOption (NewINI ord) [] ''k'' ''v''), None)"
    by (simp add: Read_def parse.simps(2) t a)
  have p: "parse (replicate n ([], Some (ErrIO ''read failed''))) sec m ini = None" for sec m ini
    by (induction n arbitrary: m) (simp_all add: parse.simps(2))
  have r2: "Read (replicate n ([], Some (ErrIO ''read failed''))) ord = None"
    by (simp add: Read_def p)
  have w: "Write (snd (AddOption (NewINI True) ''s'' ''k'' ''v'')) (buffer\<lparr>broken := True\<rparr>) rng rngs =
     (\<lparr>written = [], broken = True, calls = 3\<rparr>, None)"
    by (simp add: Write_def Fprintln_def buffer_def INI_eval)
  from r1 r2 w show ?thesis by blast
qed

theorem C3_witness:
  "Read (replicate 5 ([], Some (ErrIO ''read failed''))) False = None"
  using C3_io_errors_dropped[of False 5] by blast

subsection \<open>Trimming the lines that Write prints\<close>

declare strip.simps [simp del]

lemma strip_None:
  "find (\<lambda>e. e \<noteq> [] \<and> take (length e) s = e) encs = None \<Longrightarrow> strip encs s = s"
  by (subst strip.simps) simp

lemma strip_length: "length (strip encs s) \<le> length s"
proof (induction encs s rule: strip.induct)
  case (1 encs s)
  show ?case
  proof (cases "find (\<lambda>e. e \<noteq> [] \<and> take (length e) s = e) encs")
    case None
    then show ?thesis by (simp add: strip_None)
  next
    case (Some e)
    from "1"[OF Some] have "length (strip encs (drop (length e) s)) \<le> length s" by simp
    then show ?thesis by (subst strip.simps) (simp add: Some)
  qed
qed

lemma strip_fixed:
  assumes "strip encs s = s"
  shows "find (\<lambda>e. e \<noteq> [] \<and> take (length e) s = e) encs = None"
proof (rule ccontr)
  assume "find (\<lambda>e. e \<noteq> [] \<and> take (length e) s = e) encs \<noteq> None"
  then obtain e where e: "find (\<lambda>e. e \<noteq> [] \<and> take (length e) s = e) encs = Some e" by auto
  then have ne: "e \<noteq> []" and tk: "take (length e) s = e" by (auto simp: find_Some_iff)
  from tk have "length e \<le> length s" by (metis length_take min.cobounded2 min_def nat_le_linear)
  with ne have lt: "length (drop (length e) s) < length s" by (cases e) auto
  have "strip encs s = strip encs (drop (length e) s)" by (subst strip.simps) (simp add: e)
  with strip_length[of encs "drop (length e) s"] lt have "length (strip encs s) < length s" by simp
  with assms show False by simp
qed

lemma TrimSpace_fixed:
  assumes "TrimSpace x = x"
  shows "TrimLeft x = x" and "TrimRight x = x"
proof -
  let ?y = "TrimLeft x"
  have l1: "length ?y \<le> length x" by (simp add: TrimLeft_def strip_length)
  have "length (TrimRight ?y) \<le> length ?y"
    using strip_length[of "map rev space_encodings" "rev ?y"] by (simp add: TrimRight_def)
  with assms l1 have le: "length ?y = length x" by (simp add: TrimSpace_def)
  have "find (\<lambda>e. e \<noteq> [] \<and> take (length e) x = e) space_encodings = None"
  proof (rule ccontr)
    assume "find (\<lambda>e. e \<noteq> [] \<and> take (length e) x = e) space_encodings \<noteq> None"
    then obtain e where e: "find (\<lambda>e. e \<noteq> [] \<and> take (length e) x = e) space_encodings = Some e"
      by auto
    then have ne: "e \<noteq> []" and tk: "take (length e) x = e" by (auto simp: find_Some_iff)
    from tk have "length e \<le> length x" by (metis length_take min.cobounded2 min_def nat_le_linear)
    with ne have lt: "length (drop (length e) x) < length x" by (cases e) auto
    have "?y = strip space_encodings (drop (length e) x)"
      unfolding TrimLeft_def by (subst strip.simps) (simp add: e)
    with strip_length[of space_encodings "drop (length e) x"] lt le show False by simp
  qed
  then show "TrimLeft x = x" by (simp add: TrimLeft_def strip_None)
  with assms show "TrimRight x = x" by (simp add: TrimSpace_def)
qed

text \<open>
  A byte \<open>c\<close> that occurs in no encoding beyond its first byte cannot complete an encoding
  that starts inside \<open>k\<close>.
\<close>

lemma find_append_None:
  assumes "find (\<lambda>e. e \<noteq> [] \<and> take (length e) k = e) encs = None"
    and "k \<noteq> []" and "\<forall>e\<in>set encs. c \<notin> set (tl e)"
  shows "find (\<lambda>e. e \<noteq> [] \<and> take (length e) (k @ c # rest) = e) encs = None"
proof -
  have "\<not> (e \<noteq> [] \<and> take (length e) (k @ c # rest) = e)" if e: "e \<in> set encs" for e
  proof
    assume a: "e \<noteq> [] \<and> take (length e) (k @ c # rest) = e"
    show False
    proof (cases "length e \<le> length k")
      case True
      with a have "e \<noteq> [] \<and> take (length e) k = e" by simp
      with assms(1) e show False by (auto simp: find_None_iff)
    next
      case False
      then obtain m where m: "length e - length k = Suc m" by (cases "length e - length k") auto
      from a have "e = k @ take (length e - length k) (c # rest)" using False by simp
      then have "e = k @ c # take m rest" by (simp add: m)
      with assms(2) have "c \<in> set (tl e)" by (cases k) auto
      with assms(3) e show False by blast
    qed
  qed
  then show ?thesis by (auto simp: find_None_iff)
qed

lemma space_tl: "\<forall>e\<in>set space_encodings. CHR '' '' \<notin> set (tl e)"
  by (simp add: space_encodings_def)

lemma space_rev_tl: "\<forall>e\<in>set (map rev space_encodings). CHR '' '' \<notin> set (tl e)"
  by (simp add: space_encodings_def)

lemma strip_space: "strip space_encodings (CHR '' '' # s) = strip space_encodings s"
  by (subst strip.simps) (simp add: space_encodings_def)

lemma strip_rev_space:
  "strip (map rev space_encodings) (CHR '' '' # s) = strip (map rev space_encodings) s"
  by (subst strip.simps) (simp add: space_encodings_def)

lemma strip_rev_newline:
  "strip (map rev space_encodings) (CHR 0x0A # s) = strip (map rev space_encodings) s"
  by (subst strip.simps) (simp add: space_encodings_def)

lemma strip_open: "strip space_encodings (CHR ''['' # s) = CHR ''['' # s"
  by (rule strip_None) (simp add: space_encodings_def)

lemma strip_rev_close: "strip (map rev space_encodings) (CHR '']'' # s) = CHR '']'' # s"
  by (rule strip_None) (simp add: space_encodings_def)

lemma TrimSpace_header:
  "TrimSpace (CHR ''['' # s @ [CHR '']'', CHR 0x0A]) = CHR ''['' # s @ [CHR '']'']"
  by (simp add: TrimSpace_def TrimLeft_def TrimRight_def strip_open strip_rev_newline
      strip_rev_close)

lemma TrimSpace_newline: "TrimSpace [CHR 0x0A] = []"
  by code_simp

lemma TrimLeft_append_space:
  assumes "TrimLeft k = k" "k \<noteq> []"
  shows "TrimLeft (k @ CHR '' '' # rest) = k @ CHR '' '' # rest"
  unfolding TrimLeft_def
  by (rule strip_None, rule find_append_None)
     (use assms in \<open>simp_all add: space_tl strip_fixed TrimLeft_def\<close>)

lemma TrimRight_space_append:
  assumes "TrimRight v = v" "v \<noteq> []"
  shows "TrimRight (pre @ CHR '' '' # v) = pre @ CHR '' '' # v"
proof -
  from assms(1) have "rev (strip (map rev space_encodings) (rev v)) = v"
    by (simp add: TrimRight_def)
  then have "strip (map rev space_encodings) (rev v) = rev v" by (metis rev_rev_ident)
  then have f: "find (\<lambda>e. e \<noteq> [] \<and> take (length e) (rev v) = e) (map rev space_encodings) = None"
    by (rule strip_fixed)
  have "strip (map rev space_encodings) (rev v @ CHR '' '' # rev pre) =
        rev v @ CHR '' '' # rev pre"
    by (rule strip_None, rule find_append_None[OF f])
       (use assms(2) space_rev_tl in simp_all)
  then show ?thesis by (simp add: TrimRight_def)
qed

lemma TrimSpace_option_line:
  assumes "TrimSpace k = k" "k \<noteq> []" "TrimSpace v = v" "v \<noteq> []"
  shows "TrimSpace (k @ '' = '' @ v @ [CHR 0x0A]) = k @ '' = '' @ v"
proof -
  note k = TrimSpace_fixed[OF assms(1)] and v = TrimSpace_fixed[OF assms(3)]
  have l: "TrimLeft (k @ '' = '' @ v @ [CHR 0x0A]) = k @ '' = '' @ v @ [CHR 0x0A]"
    using TrimLeft_append_space[OF k(1) assms(2), of "''= '' @ v @ [CHR 0x0A]"] by simp
  have "TrimRight ((k @ '' ='') @ CHR '' '' # v) = (k @ '' ='') @ CHR '' '' # v"
    by (rule TrimRight_space_append[OF v(2) assms(4)])
  then have r: "TrimRight (k @ '' = '' @ v) = k @ '' = '' @ v" by simp
  have "TrimRight (k @ '' = '' @ v @ [CHR 0x0A]) = TrimRight (k @ '' = '' @ v)"
    by (simp add: TrimRight_def strip_rev_newline)
  with l r show ?thesis by (simp add: TrimSpace_def)
qed

lemma TrimSpace_key:
  assumes "TrimSpace k = k" "k \<noteq> []"
  shows "TrimSpace (k @ '' '') = k"
proof -
  note k = TrimSpace_fixed[OF assms(1)]
  have l: "TrimLeft (k @ '' '') = k @ '' ''"
    using TrimLeft_append_space[OF k(1) assms(2), of "[]"] by simp
  have "TrimRight (k @ '' '') = TrimRight k"
    by (simp add: TrimRight_def strip_rev_space)
  with l k(2) show ?thesis by (simp add: TrimSpace_def)
qed

lemma TrimSpace_value:
  assumes "TrimSpace v = v"
  shows "TrimSpace (CHR '' '' # v) = v"
proof -
  note v = TrimSpace_fixed[OF assms(1)]
  have "TrimLeft (CHR '' '' # v) = TrimLeft v" by (simp add: TrimLeft_def strip_space)
  with v show ?thesis by (simp add: TrimSpace_def)
qed

subsection \<open>The round trip\<close>

lemma header_step:
  assumes "roundtrip_name s"
  shows "line_step (sec, ini) (CHR ''['' # s @ '']'') = (s, snd (AddSection ini s))"
    and "\<not> invalid_line (CHR ''['' # s @ '']'')"
proof -
  let ?h = "CHR ''['' # s @ '']''"
  from assms have p: "CHR ''='' \<notin> set s" "CHR 0x0A \<notin> set s" and t: "TrimSpace s = s"
    by (auto simp: roundtrip_name_def plain_def)
  have nb: "\<not> blank_or_comment ?h" by (simp add: blank_or_comment_def)
  have "dropWhile (\<lambda>c. c \<noteq> CHR ''='') ?h = []" using p by auto
  then have a: "FindStringSubmatch assignRegex ?h = None"
    unfolding assignRegex_match by simp
  have sr: "FindStringSubmatch sectionRegex ?h = Some [?h, s]"
    unfolding sectionRegex_match using p by (simp add: butlast_append)
  have ih: "is_header ?h" "\<not> is_assignment ?h" "header_name ?h = s"
    using nb a sr t by (simp_all add: is_header_def is_assignment_def header_name_def)
  show "line_step (sec, ini) ?h = (s, snd (AddSection ini s))"
    using nb ih by (simp add: line_step_def)
  show "\<not> invalid_line ?h" using sr by (simp add: invalid_line_def)
qed

lemma option_step:
  assumes "roundtrip_key k" "roundtrip_value v"
  shows "line_step (sec, ini) (k @ '' = '' @ v) = (sec, snd (AddOption ini sec k v))"
    and "\<not> invalid_line (k @ '' = '' @ v)"
proof -
  let ?l = "k @ '' = '' @ v"
  from assms have k: "CHR ''='' \<notin> set k" "k \<noteq> []" "hd k \<noteq> CHR '';''" "hd k \<noteq> CHR ''#''"
      "TrimSpace k = k"
    and v: "CHR 0x0A \<notin> set v" "TrimSpace v = v"
    by (auto simp: roundtrip_key_def roundtrip_value_def roundtrip_name_def plain_def)
  from k(1,2) have hk: "hd k \<noteq> CHR ''=''" by (cases k) auto
  have nb: "\<not> blank_or_comment ?l" using k by (simp add: blank_or_comment_def)
  have tw: "takeWhile (\<lambda>c. c \<noteq> CHR ''='') ?l = k @ '' ''"
    using k(1) by (auto simp: takeWhile_append)
  have dw: "dropWhile (\<lambda>c. c \<noteq> CHR ''='') ?l = ''= '' @ v"
    using k(1) by (auto simp: dropWhile_append)
  have a: "FindStringSubmatch assignRegex ?l = Some [?l, k @ '' '', CHR '' '' # v]"
    unfolding assignRegex_match tw dw using k(2) hk v(1) by simp
  have ia: "is_assignment ?l" using nb a by (simp add: is_assignment_def)
  show "line_step (sec, ini) ?l = (sec, snd (AddOption ini sec k v))"
    using nb ia a TrimSpace_key[OF k(5) k(2)] TrimSpace_value[OF v(2)]
    by (simp add: line_step_def)
  show "\<not> invalid_line ?l" using a by (simp add: invalid_line_def)
qed

lemma split_reads_line:
  "CHR 0x0A \<notin> set l \<Longrightarrow>
   split_reads cur (l @ CHR 0x0A # rest) = (cur @ l @ [CHR 0x0A], None) # split_reads [] rest"
  by (induction l arbitrary: cur) auto

lemma string_reader_lines:
  "\<forall>l\<in>set ls. CHR 0x0A \<notin> set l \<Longrightarrow>
   split_reads [] (concat (map (\<lambda>l. l @ [CHR 0x0A]) ls)) =
     map (\<lambda>l. (l @ [CHR 0x0A], None)) ls @ [([], Some EOF)]"
proof (induction ls)
  case Nil
  show ?case by simp
next
  case (Cons l ls)
  then have "CHR 0x0A \<notin> set l" by simp
  from split_reads_line[OF this, of "[]" "concat (map (\<lambda>l. l @ [CHR 0x0A]) ls)"] Cons
  show ?case by simp
qed

lemma foldl_line_step_Nil: "foldl line_step st (ls @ [[]]) = foldl line_step st ls"
  by simp

lemma Read_lines:
  assumes "\<forall>l\<in>set ls. \<not> invalid_line (TrimSpace (l @ [CHR 0x0A]))"
  shows "Read (map (\<lambda>l. (l @ [CHR 0x0A], None)) ls @ [([], Some EOF)]) ord =
     Some (snd (foldl line_step ([], NewINI ord) (map (\<lambda>l. TrimSpace (l @ [CHR 0x0A])) ls)),
           None)"
proof -
  let ?pre = "map (\<lambda>l. (l @ [CHR 0x0A], None :: error option)) ls"
  let ?ts = "map (\<lambda>l. TrimSpace (l @ [CHR 0x0A])) ls"
  have p: "\<forall>x\<in>set ?pre. snd x \<noteq> Some EOF" by auto
  have ls: "?ts @ [[]] = map (\<lambda>r. TrimSpace (fst r)) (?pre @ [([], Some EOF)])"
    by (simp add: comp_def)
  have "\<forall>l\<in>set (?ts @ [[]]). \<not> invalid_line l" using assms by auto
  then have f: "first_invalid (?ts @ [[]]) = length (?ts @ [[]])" by (rule first_invalid_all)
  have tk: "take (length (?ts @ [[]])) (?ts @ [[]]) = ?ts @ [[]]" by simp
  show ?thesis
    unfolding Read_script[OF p ls] f tk foldl_line_step_Nil by simp
qed

lemma Fprintln_written:
  "\<not> broken w \<Longrightarrow>
   written (fst (Fprintln w operands)) = written w @ Sprintln operands \<and>
   \<not> broken (fst (Fprintln w operands))"
  by (simp add: Fprintln_def)

lemma options_written:
  "\<not> broken w \<Longrightarrow>
   written (foldl (\<lambda>w option. let value = f option in fst (Fprintln w [option, ''='', value]))
                w ks) =
     written w @ concat (map (\<lambda>l. l @ [CHR 0x0A]) (map (\<lambda>k. k @ '' = '' @ f k) ks)) \<and>
   \<not> broken (foldl (\<lambda>w option. let value = f option in fst (Fprintln w [option, ''='', value]))
                w ks)"
proof (induction ks arbitrary: w)
  case Nil
  then show ?case by simp
next
  case (Cons k ks)
  let ?w1 = "fst (Fprintln w [k, ''='', f k])"
  from Fprintln_written[OF Cons.prems, of "[k, ''='', f k]"]
  have w1: "written ?w1 = written w @ k @ '' = '' @ f k @ [CHR 0x0A]" "\<not> broken ?w1"
    by simp_all
  from Cons.IH[OF w1(2)] w1(1) show ?case by (simp add: Let_def)
qed

lemma Write_written_gen:
  "\<not> broken w \<Longrightarrow>
   written (foldl (\<lambda>w section.
        let w1 = fst (Fprintln w [''['' @ section @ '']'']);
            w2 = foldl (\<lambda>w option.
                   let value = fst (GetOption ini section option)
                   in fst (Fprintln w [option, ''='', value]))
                 w1 (Options ini section (rngs section))
        in fst (Fprintln w2 [])) w ss) =
     written w @ concat (map (\<lambda>l. l @ [CHR 0x0A])
       (concat (map (\<lambda>s. section_lines ini s (Options ini s (rngs s))) ss))) \<and>
   \<not> broken (foldl (\<lambda>w section.
        let w1 = fst (Fprintln w [''['' @ section @ '']'']);
            w2 = foldl (\<lambda>w option.
                   let value = fst (GetOption ini section option)
                   in fst (Fprintln w [option, ''='', value]))
                 w1 (Options ini section (rngs section))
        in fst (Fprintln w2 [])) w ss)"
proof (induction ss arbitrary: w)
  case Nil
  then show ?case by simp
next
  case (Cons s ss)
  let ?w1 = "fst (Fprintln w [''['' @ s @ '']''])"
  let ?w2 = "foldl (\<lambda>w option. let value = fst (GetOption ini s option)
                   in fst (Fprintln w [option, ''='', value])) ?w1 (Options ini s (rngs s))"
  let ?w3 = "fst (Fprintln ?w2 [])"
  from Fprintln_written[OF Cons.prems, of "[''['' @ s @ '']'']"]
  have w1: "written ?w1 = written w @ ''['' @ s @ '']'' @ [CHR 0x0A]" "\<not> broken ?w1"
    by simp_all
  from options_written[OF w1(2), of "\<lambda>k. fst (GetOption ini s k)" "Options ini s (rngs s)"]
  have w2: "written ?w2 = written ?w1 @ concat (map (\<lambda>l. l @ [CHR 0x0A])
       (map (\<lambda>k. k @ '' = '' @ fst (GetOption ini s k)) (Options ini s (rngs s))))"
      "\<not> broken ?w2" by simp_all
  from Fprintln_written[OF w2(2), of "[]"]
  have w3: "written ?w3 = written ?w2 @ [CHR 0x0A]" "\<not> broken ?w3" by simp_all
  have "written ?w3 = written w @ concat (map (\<lambda>l. l @ [CHR 0x0A])
      (section_lines ini s (Options ini s (rngs s))))"
    unfolding w3(1) w2(1) w1(1) by (simp add: section_lines_def)
  with Cons.IH[OF w3(2)] show ?case by (simp add: Let_def)
qed

lemma Write_written:
  "written (fst (Write ini buffer rng rngs)) =
     concat (map (\<lambda>l. l @ [CHR 0x0A])
       (concat (map (\<lambda>s. section_lines ini s (Options ini s (rngs s))) (Sections ini rng))))"
proof -
  have "\<not> broken buffer" "written buffer = []" by (simp_all add: buffer_def)
  with Write_written_gen[of buffer ini rngs "Sections ini rng"] show ?thesis
    by (simp add: Write_def)
qed

lemma add_prefix_options:
  assumes "k \<notin> set qs" "options opts k = Some v"
  shows "snd (add (prefix_options opts qs) k v) = prefix_options opts (qs @ [k])"
proof -
  have m: "(options opts |` set qs)(k \<mapsto> v) = options opts |` insert k (set qs)"
    using assms(2) by (auto simp: fun_eq_iff restrict_map_def)
  show ?thesis using assms(1) m
    by (simp add: add_def prefix_options_def exist_def Let_def restrict_map_def)
qed

lemma AddOption_present:
  "sections R s = Some o1 \<Longrightarrow>
   snd (AddOption R s k v) = R\<lparr>sections := (sections R)(s \<mapsto> snd (add o1 k v))\<rparr>"
  by (simp add: AddOption_def HasSection_def Let_def)

lemma options_rebuild:
  assumes "sections R s = Some (prefix_options opts qs)"
    and "distinct (qs @ ks)"
    and "set ks \<subseteq> dom (options opts)"
    and "\<forall>k v. options opts k = Some v \<longrightarrow> roundtrip_key k \<and> roundtrip_value v"
  shows "foldl line_step (s, R) (map (\<lambda>k. k @ '' = '' @ the (options opts k)) ks) =
         (s, R\<lparr>sections := (sections R)(s \<mapsto> prefix_options opts (qs @ ks))\<rparr>)"
  using assms(1,2,3)
proof (induction ks arbitrary: qs R)
  case Nil
  then have "(sections R)(s \<mapsto> prefix_options opts qs) = sections R" by (simp add: map_upd_triv)
  then show ?case by simp
next
  case (Cons k ks)
  from Cons.prems(3) obtain v where v: "options opts k = Some v" by auto
  with assms(4) have ok: "roundtrip_key k" "roundtrip_value v" by auto
  from Cons.prems(2) have nk: "k \<notin> set qs" by auto
  let ?R = "R\<lparr>sections := (sections R)(s \<mapsto> prefix_options opts (qs @ [k]))\<rparr>"
  have st: "line_step (s, R) (k @ '' = '' @ the (options opts k)) = (s, ?R)"
    unfolding v option.sel option_step(1)[OF ok]
    by (simp add: AddOption_present[OF Cons.prems(1)] add_prefix_options[OF nk v])
  have s': "sections ?R s = Some (prefix_options opts (qs @ [k]))" by simp
  have d': "distinct ((qs @ [k]) @ ks)" using Cons.prems(2) by simp
  have k': "set ks \<subseteq> dom (options opts)" using Cons.prems(3) by simp
  have e: "?R\<lparr>sections := (sections ?R)(s \<mapsto> prefix_options opts ((qs @ [k]) @ ks))\<rparr> =
           R\<lparr>sections := (sections R)(s \<mapsto> prefix_options opts (qs @ k # ks))\<rparr>"
    by simp
  have "foldl line_step (s, R) (map (\<lambda>k. k @ '' = '' @ the (options opts k)) (k # ks)) =
        foldl line_step (s, ?R) (map (\<lambda>k. k @ '' = '' @ the (options opts k)) ks)"
    using st by simp
  also have "\<dots> = (s, ?R\<lparr>sections := (sections ?R)(s \<mapsto> prefix_options opts ((qs @ [k]) @ ks))\<rparr>)"
    by (rule Cons.IH[OF s' d' k'])
  finally show ?case unfolding e .
qed

lemma section_rebuild:
  assumes inv: "INI_inv D" and rt: "roundtrip_doc D"
    and s: "sections D s = Some opts" and ns: "s \<notin> set ps"
    and ks: "distinct ks" "set ks = dom (options opts)"
      "INI.ordered D \<Longrightarrow> ks = optionNames opts"
  shows "foldl line_step (sec, prefix_doc D ps)
           (map (\<lambda>l. TrimSpace (l @ [CHR 0x0A])) (section_lines D s ks)) =
         (s, prefix_doc D (ps @ [s]))"
    and "\<forall>l\<in>set (section_lines D s ks).
           CHR 0x0A \<notin> set l \<and> \<not> invalid_line (TrimSpace (l @ [CHR 0x0A]))"
proof -
  from s have "opts \<in> ran (sections D)" by (auto simp: ran_def)
  with inv have oi: "options_inv opts" and oo: "iniOptions.ordered opts = INI.ordered D"
    by (auto simp: INI_inv_def)
  from rt s have sn: "roundtrip_name s"
    and kv: "\<forall>k v. options opts k = Some v \<longrightarrow> roundtrip_key k \<and> roundtrip_value v"
    by (auto simp: roundtrip_doc_def)
  have val: "fst (GetOption D s k) = the (options opts k)" if "k \<in> set ks" for k
    using that ks(2) s by (auto simp: GetOption_def get_def exist_def)
  have ol: "TrimSpace ((k @ '' = '' @ fst (GetOption D s k)) @ [CHR 0x0A]) =
            k @ '' = '' @ the (options opts k)" if "k \<in> set ks" for k
  proof -
    from that ks(2) obtain v where v: "options opts k = Some v" by auto
    with kv have "roundtrip_key k" "roundtrip_value v" by auto
    then have "TrimSpace k = k" "k \<noteq> []" "TrimSpace v = v" "v \<noteq> []"
      by (auto simp: roundtrip_key_def roundtrip_value_def roundtrip_name_def)
    from TrimSpace_option_line[OF this] show ?thesis by (simp add: val[OF that] v)
  qed
  have tl: "map (\<lambda>l. TrimSpace (l @ [CHR 0x0A])) (section_lines D s ks) =
        (CHR ''['' # s @ '']'') # map (\<lambda>k. k @ '' = '' @ the (options opts k)) ks @ [[]]"
    using TrimSpace_header[of s] ol
    by (simp add: section_lines_def TrimSpace_newline comp_def)
  let ?R1 = "snd (AddSection (prefix_doc D ps) s)"
  have nh: "\<not> HasSection (prefix_doc D ps) s" using ns
    by (simp add: HasSection_def prefix_doc_def restrict_map_def)
  have n0: "newOptions (INI.ordered D) = prefix_options opts []"
    by (simp add: newOptions_def prefix_options_def oo)
  have R1: "?R1 = \<lparr>INI.ordered = INI.ordered D,
      sectionNames = (if INI.ordered D then ps @ [s] else []),
      sections = (sections D |` set ps)(s \<mapsto> prefix_options opts [])\<rparr>"
    using nh by (simp add: AddSection_def Let_def prefix_doc_def n0)
  then have s1: "sections ?R1 s = Some (prefix_options opts [])" by simp
  have full: "prefix_options opts ks = opts"
  proof -
    have "options opts |` set ks = options opts"
      unfolding ks(2) by (auto simp: fun_eq_iff restrict_map_def domIff)
    moreover have "(if iniOptions.ordered opts then ks else []) = optionNames opts"
      using ks(3) oi oo by (auto simp: options_inv_def)
    ultimately show ?thesis by (simp add: prefix_options_def)
  qed
  have m: "(sections D |` set ps)(s \<mapsto> opts) = sections D |` set (ps @ [s])"
    using s by (auto simp: fun_eq_iff restrict_map_def)
  have fin: "?R1\<lparr>sections := (sections ?R1)(s \<mapsto> prefix_options opts ([] @ ks))\<rparr> =
             prefix_doc D (ps @ [s])"
    unfolding R1 by (simp add: full m prefix_doc_def)
  have "foldl line_step (sec, prefix_doc D ps)
           (map (\<lambda>l. TrimSpace (l @ [CHR 0x0A])) (section_lines D s ks)) =
        foldl line_step (s, ?R1) (map (\<lambda>k. k @ '' = '' @ the (options opts k)) ks)"
    unfolding tl using header_step(1)[OF sn, of sec "prefix_doc D ps"] by simp
  also have "\<dots> = (s, ?R1\<lparr>sections := (sections ?R1)(s \<mapsto> prefix_options opts ([] @ ks))\<rparr>)"
    by (rule options_rebuild[OF s1 _ _ kv]) (use ks in auto)
  finally show "foldl line_step (sec, prefix_doc D ps)
           (map (\<lambda>l. TrimSpace (l @ [CHR 0x0A])) (section_lines D s ks)) =
         (s, prefix_doc D (ps @ [s]))"
    unfolding fin .
  show "\<forall>l\<in>set (section_lines D s ks).
           CHR 0x0A \<notin> set l \<and> \<not> invalid_line (TrimSpace (l @ [CHR 0x0A]))"
  proof
    fix l assume "l \<in> set (section_lines D s ks)"
    then consider "l = CHR ''['' # s @ '']''" | "l = []"
      | k where "k \<in> set ks" "l = k @ '' = '' @ fst (GetOption D s k)"
      by (auto simp: section_lines_def)
    then show "CHR 0x0A \<notin> set l \<and> \<not> invalid_line (TrimSpace (l @ [CHR 0x0A]))"
    proof cases
      case 1
      from sn have "CHR 0x0A \<notin> set s" by (simp add: roundtrip_name_def plain_def)
      with 1 header_step(2)[OF sn] TrimSpace_header[of s] show ?thesis by simp
    next
      case 2
      then show ?thesis by (simp add: TrimSpace_newline)
    next
      case 3
      from 3(1) ks(2) obtain v where v: "options opts k = Some v" by auto
      with kv have ok: "roundtrip_key k" "roundtrip_value v" by auto
      then have "CHR 0x0A \<notin> set k" "CHR 0x0A \<notin> set v"
        by (auto simp: roundtrip_key_def roundtrip_value_def roundtrip_name_def plain_def)
      moreover have "\<not> invalid_line (TrimSpace (l @ [CHR 0x0A]))"
        unfolding 3(2) ol[OF 3(1)] v option.sel by (rule option_step(2)[OF ok])
      ultimately show ?thesis by (simp add: 3(2) val[OF 3(1)] v)
    qed
  qed
qed

lemma doc_rebuild:
  assumes inv: "INI_inv D" and rt: "roundtrip_doc D"
    and ks: "\<forall>s opts. sections D s = Some opts \<longrightarrow>
        distinct (K s) \<and> set (K s) = dom (options opts) \<and>
        (INI.ordered D \<longrightarrow> K s = optionNames opts)"
  shows "distinct (ps @ ss) \<Longrightarrow> set ss \<subseteq> dom (sections D) \<Longrightarrow>
     snd (foldl line_step (sec, prefix_doc D ps)
        (map (\<lambda>l. TrimSpace (l @ [CHR 0x0A]))
           (concat (map (\<lambda>s. section_lines D s (K s)) ss)))) = prefix_doc D (ps @ ss) \<and>
     (\<forall>l\<in>set (concat (map (\<lambda>s. section_lines D s (K s)) ss)).
        CHR 0x0A \<notin> set l \<and> \<not> invalid_line (TrimSpace (l @ [CHR 0x0A])))"
proof (induction ss arbitrary: ps sec)
  case Nil
  then show ?case by simp
next
  case (Cons s ss)
  from Cons.prems(2) obtain opts where s: "sections D s = Some opts" by auto
  from Cons.prems(1) have ns: "s \<notin> set ps" by auto
  from ks s have k: "distinct (K s)" "set (K s) = dom (options opts)"
    "INI.ordered D \<Longrightarrow> K s = optionNames opts" by auto
  note sr = section_rebuild[OF inv rt s ns k]
  have d: "distinct ((ps @ [s]) @ ss)" using Cons.prems(1) by simp
  have sub: "set ss \<subseteq> dom (sections D)" using Cons.prems(2) by simp
  from Cons.IH[OF d sub, of s] sr(1)[of sec] sr(2) show ?case by auto
qed

lemma prefix_doc_all:
  assumes "INI_inv D" "set ss = dom (sections D)" "INI.ordered D \<Longrightarrow> ss = sectionNames D"
  shows "prefix_doc D ss = D"
proof -
  have "sections D |` set ss = sections D"
    unfolding assms(2) by (auto simp: fun_eq_iff restrict_map_def domIff)
  moreover have "(if INI.ordered D then ss else []) = sectionNames D"
    using assms(1,3) by (auto simp: INI_inv_def)
  ultimately show ?thesis by (simp add: prefix_doc_def)
qed

lemma round_trip_doc:
  assumes inv: "INI_inv D" and rt: "roundtrip_doc D"
    and rng: "\<not> INI.ordered D \<Longrightarrow> map_range (sections D) rng"
    and rngs: "\<not> INI.ordered D \<Longrightarrow>
       \<forall>s opts. sections D s = Some opts \<longrightarrow> map_range (options opts) (rngs s)"
  shows "Read (string_reader (written (fst (Write D buffer rng rngs)))) (INI.ordered D) =
         Some (D, None)"
proof -
  let ?ss = "Sections D rng"
  let ?K = "\<lambda>s. Options D s (rngs s)"
  let ?ls = "concat (map (\<lambda>s. section_lines D s (?K s)) ?ss)"
  have ss: "distinct ?ss" "set ?ss = dom (sections D)" "INI.ordered D \<Longrightarrow> ?ss = sectionNames D"
    using inv rng
    by (auto simp: Sections_def foldl_snoc_id INI_inv_def map_range_def split: if_splits)
  have K: "\<forall>s opts. sections D s = Some opts \<longrightarrow>
        distinct (?K s) \<and> set (?K s) = dom (options opts) \<and>
        (INI.ordered D \<longrightarrow> ?K s = optionNames opts)"
  proof (intro allI impI)
    fix s opts assume s: "sections D s = Some opts"
    then have "opts \<in> ran (sections D)" by (auto simp: ran_def)
    with inv have oi: "options_inv opts" and oo: "iniOptions.ordered opts = INI.ordered D"
      by (auto simp: INI_inv_def)
    show "distinct (?K s) \<and> set (?K s) = dom (options opts) \<and>
        (INI.ordered D \<longrightarrow> ?K s = optionNames opts)"
    proof (cases "INI.ordered D")
      case True
      with s oi oo show ?thesis
        by (simp add: Options_def HasSection_def getOptions_def options_inv_def)
    next
      case False
      from rngs[OF False] s have "map_range (options opts) (rngs s)" by blast
      with False s oo show ?thesis
        by (simp add: Options_def HasSection_def getOptions_def foldl_snoc_id map_range_def)
    qed
  qed
  from doc_rebuild[OF inv rt K, of "[]" ?ss "[]"] ss(1,2)
  have fold: "snd (foldl line_step ([], prefix_doc D [])
        (map (\<lambda>l. TrimSpace (l @ [CHR 0x0A])) ?ls)) = prefix_doc D ?ss"
    and ok: "\<forall>l\<in>set ?ls. CHR 0x0A \<notin> set l \<and> \<not> invalid_line (TrimSpace (l @ [CHR 0x0A]))"
    by simp_all
  have p0: "prefix_doc D [] = NewINI (INI.ordered D)"
    by (simp add: prefix_doc_def NewINI_def)
  have "string_reader (written (fst (Write D buffer rng rngs))) =
        map (\<lambda>l. (l @ [CHR 0x0A], None)) ?ls @ [([], Some EOF)]"
    unfolding string_reader_def Write_written by (rule string_reader_lines) (use ok in blast)
  moreover have "Read (map (\<lambda>l. (l @ [CHR 0x0A], None)) ?ls @ [([], Some EOF)]) (INI.ordered D) =
     Some (snd (foldl line_step ([], NewINI (INI.ordered D))
                  (map (\<lambda>l. TrimSpace (l @ [CHR 0x0A])) ?ls)), None)"
    by (rule Read_lines) (use ok in blast)
  ultimately show ?thesis
    using fold prefix_doc_all[OF inv ss(2,3)] by (simp add: p0)
qed

lemma roundtrip_doc_AddSection:
  "roundtrip_doc ini \<Longrightarrow> roundtrip_name s \<Longrightarrow> roundtrip_doc (snd (AddSection ini s))"
  by (auto simp: roundtrip_doc_def sections_AddSection newOptions_def split: if_splits)

lemma roundtrip_doc_AddOption:
  assumes "roundtrip_doc ini" "roundtrip_name s" "roundtrip_key k" "roundtrip_value v"
  shows "roundtrip_doc (snd (AddOption ini s k v))"
proof -
  let ?i1 = "snd (AddSection ini s)"
  have r1: "roundtrip_doc ?i1" by (rule roundtrip_doc_AddSection[OF assms(1,2)])
  have "sections ?i1 s \<noteq> None" by (auto simp: sections_AddSection HasSection_def)
  then obtain o1 where o1: "sections ?i1 s = Some o1" by auto
  with r1 have "\<forall>k v. options o1 k = Some v \<longrightarrow> roundtrip_key k \<and> roundtrip_value v"
    by (auto simp: roundtrip_doc_def)
  then have "\<forall>k' v'. options (snd (add o1 k v)) k' = Some v' \<longrightarrow>
      roundtrip_key k' \<and> roundtrip_value v'"
    using assms(3,4) by (auto simp: add_def Let_def split: if_splits)
  with r1 assms(2) show ?thesis
    unfolding AddOption_unfold Let_def o1 option.sel by (auto simp: roundtrip_doc_def)
qed

lemma roundtrip_doc_apply_ops:
  "roundtrip_doc ini \<Longrightarrow> \<forall>x\<in>set xs. roundtrip_op x \<Longrightarrow> apply_ops ini xs = Inr ini' \<Longrightarrow>
   roundtrip_doc ini'"
proof (induction xs arbitrary: ini)
  case Nil
  then show ?case by simp
next
  case (Cons x xs)
  from Cons.prems(2) have x: "roundtrip_op x" and xs: "\<forall>x\<in>set xs. roundtrip_op x" by auto
  from x obtain ini1 where a: "apply_op ini x = Inr ini1" and r: "roundtrip_doc ini1"
    using Cons.prems(1)
    by (cases x) (auto simp: roundtrip_doc_AddSection roundtrip_doc_AddOption)
  with Cons.prems(3) have "apply_ops ini1 xs = Inr ini'" by simp
  from Cons.IH[OF r xs this] show ?case .
qed

text \<open>
  Claim C1, as amended. Let a document be built from a fresh one by \<open>AddSection\<close> and
  \<open>AddOption\<close> calls whose names and values hold no \<open>=\<close>, \<open>[\<close>, \<open>]\<close> or newline, whose
  values are not empty, and, beyond what the claim asks, whose names and values neither start
  nor end with white space and whose option names are not empty and start with neither
  \<open>;\<close> nor \<open>#\<close>. Then \<open>Read\<close>, with the same ordered flag, of the text that \<open>Write\<close>
  prints returns no error and the very same document: the same sections, options and values,
  and in ordered mode the same order. For an unordered document this holds for every order
  \<open>rng\<close>, \<open>rngs\<close> in which the runtime may range over the maps.
\<close>

theorem C1_round_trip_amended:
  assumes "\<forall>x\<in>set xs. roundtrip_op x"
    and "apply_ops (NewINI ord) xs = Inr doc"
    and "\<not> ord \<Longrightarrow> map_range (sections doc) rng"
    and "\<not> ord \<Longrightarrow> \<forall>s opts. sections doc s = Some opts \<longrightarrow> map_range (options opts) (rngs s)"
  shows "Read (string_reader (written (fst (Write doc buffer rng rngs)))) ord = Some (doc, None)"
proof -
  from apply_ops_inv[OF INI_inv_NewINI, of ord xs] assms(2)
  have inv: "INI_inv doc" and o: "INI.ordered doc = ord" by (auto simp: NewINI_def)
  have "roundtrip_doc (NewINI ord)" by (simp add: roundtrip_doc_def NewINI_def)
  from roundtrip_doc_apply_ops[OF this assms(1,2)] have rt: "roundtrip_doc doc" .
  from round_trip_doc[OF inv rt, of rng rngs] assms(3,4) o show ?thesis by simp
qed

text \<open>
  Claim C1 as the specification states it fails: the option name \<open>#k\<close> meets its
  conditions, and \<open>Write\<close> prints it as the line \<open>#k = v\<close>, which \<open>Read\<close> skips as a
  comment, so the option is lost; the section name \<open>" a"\<close> comes back as \<open>"a"\<close>.
\<close>

theorem C1_counterexample:
  "claim_op (OpAddOption ''s'' ''#k'' ''v'') \<and>
   apply_ops (NewINI True) [OpAddOption ''s'' ''#k'' ''v''] =
     Inr \<lparr>INI.ordered = True, sectionNames = [''s''],
          sections = [''s'' \<mapsto> \<lparr>iniOptions.ordered = True, optionNames = [''#k''],
                                  options = [''#k'' \<mapsto> ''v'']\<rparr>]\<rparr> \<and>
   written (fst (Write \<lparr>INI.ordered = True, sectionNames = [''s''],
          sections = [''s'' \<mapsto> \<lparr>iniOptions.ordered = True, optionNames = [''#k''],
                                  options = [''#k'' \<mapsto> ''v'']\<rparr>]\<rparr> buffer [] unused_order)) =
     ''[s]\<newline>#k = v\<newline>\<newline>'' \<and>
   Read (string_reader ''[s]\<newline>#k = v\<newline>\<newline>'') True =
     Some (\<lparr>INI.ordered = True, sectionNames = [''s''],
            sections = [''s'' \<mapsto> \<lparr>iniOptions.ordered = True, optionNames = [],
                                    options = Map.empty\<rparr>]\<rparr>, None) \<and>
   Options \<lparr>INI.ordered = True, sectionNames = [''s''],
          sections = [''s'' \<mapsto> \<lparr>iniOptions.ordered = True, optionNames = [''#k''],
                                  options = [''#k'' \<mapsto> ''v'']\<rparr>]\<rparr> ''s'' [] = [''#k''] \<and>
   Options \<lparr>INI.ordered = True, sectionNames = [''s''],
            sections = [''s'' \<mapsto> \<lparr>iniOptions.ordered = True, optionNames = [],
                                    options = Map.empty\<rparr>]\<rparr> ''s'' [] = [] \<and>
   claim_op (OpAddSection '' a'') \<and>
   apply_ops (NewINI True) [OpAddSection '' a''] =
     Inr \<lparr>INI.ordered = True, sectionNames = ['' a''],
          sections = ['' a'' \<mapsto> \<lparr>iniOptions.ordered = True, optionNames = [],
                                   options = Map.empty\<rparr>]\<rparr> \<and>
   written (fst (Write \<lparr>INI.ordered = True, sectionNames = ['' a''],
          sections = ['' a'' \<mapsto> \<lparr>iniOptions.ordered = True, optionNames = [],
                                   options = Map.empty\<rparr>]\<rparr> buffer [] unused_order)) =
     ''[ a]\<newline>\<newline>'' \<and>
   Read (string_reader ''[ a]\<newline>\<newline>'') True =
     Some (\<lparr>INI.ordered = True, sectionNames = [''a''],
            sections = [''a'' \<mapsto> \<lparr>iniOptions.ordered = True, optionNames = [],
                                    options = Map.empty\<rparr>]\<rparr>, None) \<and>
   Sections \<lparr>INI.ordered = True, sectionNames = ['' a''],
          sections = ['' a'' \<mapsto> \<lparr>iniOptions.ordered = True, optionNames = [],
                                   options = Map.empty\<rparr>]\<rparr> [] = ['' a''] \<and>
   Sections \<lparr>INI.ordered = True, sectionNames = [''a''],
            sections = [''a'' \<mapsto> \<lparr>iniOptions.ordered = True, optionNames = [],
                                    options = Map.empty\<rparr>]\<rparr> [] = [''a'']"
proof -
  have c: "claim_op (OpAddOption ''s'' ''#k'' ''v'')" "claim_op (OpAddSection '' a'')"
    by (simp_all add: plain_def)
  have sr1: "string_reader ''[s]\<newline>#k = v\<newline>\<newline>'' =
      [(''[s]\<newline>'', None), (''#k = v\<newline>'', None), (''\<newline>'', None), ([], Some EOF)]"
    by code_simp
  have sr2: "string_reader ''[ a]\<newline>\<newline>'' = [(''[ a]\<newline>'', None), (''\<newline>'', None), ([], Some EOF)]"
    by code_simp
  have t: "TrimSpace ''[s]\<newline>'' = ''[s]''" "TrimSpace ''#k = v\<newline>'' = ''#k = v''"
    "TrimSpace ''\<newline>'' = []" "TrimSpace ''s'' = ''s''"
    "TrimSpace ''[ a]\<newline>'' = ''[ a]''" "TrimSpace '' a'' = ''a''"
    by code_simp+
  have a: "FindStringSubmatch assignRegex ''[s]'' = None"
    "FindStringSubmatch assignRegex ''[ a]'' = None" by code_simp+
  have s: "FindStringSubmatch sectionRegex ''[s]'' = Some [''[s]'', ''s'']"
    "FindStringSubmatch sectionRegex ''[ a]'' = Some [''[ a]'', '' a'']" by code_simp+
  have r1: "Read (string_reader ''[s]\<newline>#k = v\<newline>\<newline>'') True =
     Some (\<lparr>INI.ordered = True, sectionNames = [''s''],
            sections = [''s'' \<mapsto> \<lparr>iniOptions.ordered = True, optionNames = [],
                                    options = Map.empty\<rparr>]\<rparr>, None)"
    unfolding sr1 by (simp add: Read_def parse.simps(2) t a s INI_eval)
  have r2: "Read (string_reader ''[ a]\<newline>\<newline>'') True =
     Some (\<lparr>INI.ordered = True, sectionNames = [''a''],
            sections = [''a'' \<mapsto> \<lparr>iniOptions.ordered = True, optionNames = [],
                                    options = Map.empty\<rparr>]\<rparr>, None)"
    unfolding sr2 by (simp add: Read_def parse.simps(2) t a s INI_eval)
  show ?thesis
    using c r1 r2
    by (simp add: Write_def Fprintln_def buffer_def unused_order_def INI_eval)
qed

theorem C1_witness:
  "written (fst (Write \<lparr>INI.ordered = True, sectionNames = [''s'', ''t''],
          sections = [''s'' \<mapsto> \<lparr>iniOptions.ordered = True, optionNames = [''k''],
                                  options = [''k'' \<mapsto> ''v'']\<rparr>,
                      ''t'' \<mapsto> \<lparr>iniOptions.ordered = True, optionNames = [],
                                  options = Map.empty\<rparr>]\<rparr> buffer [] unused_order)) =
     ''[s]\<newline>k = v\<newline>\<newline>[t]\<newline>\<newline>'' \<and>
   Read (string_reader ''[s]\<newline>k = v\<newline>\<newline>[t]\<newline>\<newline>'') True =
     Some (\<lparr>INI.ordered = True, sectionNames = [''s'', ''t''],
          sections = [''s'' \<mapsto> \<lparr>iniOptions.ordered = True, optionNames = [''k''],
                                  options = [''k'' \<mapsto> ''v'']\<rparr>,
                      ''t'' \<mapsto> \<lparr>iniOptions.ordered = True, optionNames = [],
                                  options = Map.empty\<rparr>]\<rparr>, None) \<and>
   written (fst (Write \<lparr>INI.ordered = False, sectionNames = [],
          sections = [''s'' \<mapsto> \<lparr>iniOptions.ordered = False, optionNames = [],
                                  options = [''k'' \<mapsto> ''v'']\<rparr>,
                      ''t'' \<mapsto> \<lparr>iniOptions.ordered = False, optionNames = [],
                                  options = Map.empty\<rparr>]\<rparr> buffer [''t'', ''s'']
          (unused_order(''s'' := [''k''])))) =
     ''[t]\<newline>\<newline>[s]\<newline>k = v\<newline>\<newline>'' \<and>
   Read (string_reader ''[t]\<newline>\<newline>[s]\<newline>k = v\<newline>\<newline>'') False =
     Some (\<lparr>INI.ordered = False, sectionNames = [],
          sections = [''s'' \<mapsto> \<lparr>iniOptions.ordered = False, optionNames = [],
                                  options = [''k'' \<mapsto> ''v'']\<rparr>,
                      ''t'' \<mapsto> \<lparr>iniOptions.ordered = False, optionNames = [],
                                  options = Map.empty\<rparr>]\<rparr>, None)"
proof -
  let ?xs = "[OpAddOption ''s'' ''k'' ''v'', OpAddSection ''t'']"
  let ?D = "\<lparr>INI.ordered = True, sectionNames = [''s'', ''t''],
          sections = [''s'' \<mapsto> \<lparr>iniOptions.ordered = True, optionNames = [''k''],
                                  options = [''k'' \<mapsto> ''v'']\<rparr>,
                      ''t'' \<mapsto> \<lparr>iniOptions.ordered = True, optionNames = [],
                                  options = Map.empty\<rparr>]\<rparr>"
  let ?U = "\<lparr>INI.ordered = False, sectionNames = [],
          sections = [''s'' \<mapsto> \<lparr>iniOptions.ordered = False, optionNames = [],
                                  options = [''k'' \<mapsto> ''v'']\<rparr>,
                      ''t'' \<mapsto> \<lparr>iniOptions.ordered = False, optionNames = [],
                                  options = Map.empty\<rparr>]\<rparr>"
  have t: "TrimSpace ''s'' = ''s''" "TrimSpace ''k'' = ''k''" "TrimSpace ''v'' = ''v''"
    "TrimSpace ''t'' = ''t''" by code_simp+
  have ops: "\<forall>x\<in>set ?xs. roundtrip_op x"
    by (simp add: roundtrip_name_def roundtrip_key_def roundtrip_value_def plain_def t)
  have d: "apply_ops (NewINI True) ?xs = Inr ?D" by (simp add: INI_eval)
  have u: "apply_ops (NewINI False) ?xs = Inr ?U" by (simp add: INI_eval)
  have wd: "written (fst (Write ?D buffer [] unused_order)) = ''[s]\<newline>k = v\<newline>\<newline>[t]\<newline>\<newline>''"
    by (simp add: Write_def Fprintln_def buffer_def INI_eval)
  have wu: "written (fst (Write ?U buffer [''t'', ''s''] (unused_order(''s'' := [''k''])))) =
      ''[t]\<newline>\<newline>[s]\<newline>k = v\<newline>\<newline>''"
    by (simp add: Write_def Fprintln_def buffer_def unused_order_def INI_eval)
  have m1: "map_range (sections ?U) [''t'', ''s'']" by (auto simp: map_range_def)
  have m2: "\<forall>s opts. sections ?U s = Some opts \<longrightarrow>
      map_range (options opts) ((unused_order(''s'' := [''k''])) s)"
    by (auto simp: map_range_def unused_order_def split: if_splits)
  from C1_round_trip_amended[OF ops d, of "[]" unused_order]
  have rd: "Read (string_reader (written (fst (Write ?D buffer [] unused_order)))) True =
      Some (?D, None)" by simp
  from C1_round_trip_amended[OF ops u, of "[''t'', ''s'']" "unused_order(''s'' := [''k''])"] m1 m2
  have ru: "Read (string_reader (written (fst (Write ?U buffer [''t'', ''s'']
      (unused_order(''s'' := [''k'']))))))  False = Some (?U, None)" by blast
  from rd ru show ?thesis unfolding wd wu using wd wu by simp
qed

end
